theory Spec2Isabelle
  imports Main
begin

section \<open>Package errc: the error catcher and its deferred calls\<close>

text \<open>
  The theory embeds the catcher of package \<^verbatim>\<open>errc\<close> (functions
  \<^verbatim>\<open>Catch\<close>, \<^verbatim>\<open>Must\<close>, \<^verbatim>\<open>Handle\<close>, \<^verbatim>\<open>doDefers\<close>, \<^verbatim>\<open>finishDefer\<close>,
  \<^verbatim>\<open>processDeferError\<close>, \<^verbatim>\<open>processError\<close>, \<^verbatim>\<open>bail\<close>) and the handlers of
  \<^verbatim>\<open>handler.go\<close>.

  Go features and how they are written here:
  \<^item> an \<^verbatim>\<open>error\<close> interface value is an \<open>error option\<close>, \<open>None\<close> being \<^verbatim>\<open>nil\<close>;
  \<^item> a call of user code (a handler, a deferred function) either returns, panics with a
    payload, or ends the process (\<^verbatim>\<open>os.Exit\<close>); every function of the package that calls
    user code returns such an outcome together with the catcher as it is at that moment;
  \<^item> \<^verbatim>\<open>recover()\<close> is the argument \<open>r\<close> of \<open>Handle\<close>: \<open>None\<close> when the
    goroutine is not panicking, \<open>Some p\<close> when it panics with payload \<open>p\<close>
    (a payload is never \<^verbatim>\<open>nil\<close>: since Go 1.21 \<^verbatim>\<open>panic(nil)\<close> panics with an error
    value of the runtime);
  \<^item> \<^verbatim>\<open>*e.err\<close>, the caller's error variable, is the field \<open>err\<close>. \<^verbatim>\<open>Catch\<close>
    "must be passed the location of an error variable", so the pointer itself is not nil;
  \<^item> user code has effects of its own (logging, closing files): it transforms a
    \<open>world\<close> of an arbitrary type \<open>'w\<close>. It sees the catcher only through the
    \<^verbatim>\<open>State\<close> interface, as the signatures of \<^verbatim>\<open>Handler\<close> and of the deferred
    functions say;
  \<^item> the field \<open>trace\<close> records what the catcher does to its surroundings, in order:
    every call of a deferred function (with the value \<^verbatim>\<open>d.x\<close> it is called on) and every
    assignment to \<^verbatim>\<open>*e.err\<close>.

  The method \<^verbatim>\<open>Defer\<close> and the declaration of \<^verbatim>\<open>deferData\<close> are not among the
  sources at hand. Nothing below depends on how \<^verbatim>\<open>Defer\<close> fills the stack: the
  functions are defined, and the theorems hold, for every content of \<^verbatim>\<open>e.deferred\<close>.
  An entry nearer to the end of the slice was appended later.
\<close>

subsection \<open>Errors, panics and outcomes\<close>

text \<open>
  Go compares the two package errors by identity, so they are constructors of their own;
  \<open>Errorf s\<close> is the value of \<^verbatim>\<open>fmt.Errorf\<close> with text \<open>s\<close>, and \<open>UserError n\<close>
  stands for the errors of the calling program (the \<^verbatim>\<open>intErr\<close> of the tests).
\<close>

datatype error = errOurPanic | errHandlerFirst | Errorf string | UserError int

text \<open>
  The operand of \<^verbatim>\<open>panic\<close> is an \<^verbatim>\<open>interface{}\<close>: an error value, or a value of another
  type, which is represented by its \<^verbatim>\<open>%v\<close> rendering.
\<close>

datatype payload = PError error | PValue string

datatype 'a outcome = Return 'a | Panic payload | Exit

subsection \<open>State, handlers and deferred entries\<close>

text \<open>The interface \<^verbatim>\<open>State\<close>: what a handler or a deferred function can ask.\<close>

record state =
  Panicking :: bool
  Err :: "error option"

type_synonym 'w Handler = "state \<Rightarrow> error \<Rightarrow> 'w \<Rightarrow> error option outcome \<times> 'w"

type_synonym 'w DeferFunc = "state \<Rightarrow> nat \<Rightarrow> 'w \<Rightarrow> error option outcome \<times> 'w"

text \<open>
  \<^verbatim>\<open>deferData\<close> has the fields \<^verbatim>\<open>f\<close> and \<^verbatim>\<open>x\<close>. Its declaration is not part of the
  sources at hand; the catcher uses it in three ways: \<^verbatim>\<open>d.f == nil\<close>,
  \<^verbatim>\<open>d.f((*state)(e), d.x)\<close> and \<^verbatim>\<open>d.x.(Handler)\<close> when \<^verbatim>\<open>d.f\<close> is \<^verbatim>\<open>nil\<close>.
  \<open>HandlerEntry h\<close> is an entry with \<^verbatim>\<open>f == nil\<close> and the handler \<open>h\<close> in \<^verbatim>\<open>x\<close>;
  \<open>FuncEntry f x\<close> is an entry with the function \<open>f\<close> and the value \<open>x\<close>.
\<close>

datatype 'w deferData = HandlerEntry "'w Handler" | FuncEntry "'w DeferFunc" nat

datatype event = Called nat | Stored error

text \<open>
  \<^verbatim>\<open>core\<close>, which is all of a \<^verbatim>\<open>Catcher\<close>. The slice \<open>deferred\<close> is a list whose last
  element is the top of the stack; \<^verbatim>\<open>buf\<close> is only its first backing array.
\<close>

record 'w Catcher =
  defaultHandlers :: "'w Handler list"
  deferred :: "'w deferData list"
  err :: "error option"
  inPanic :: bool
  world :: 'w
  trace :: "event list"

definition Catch :: "error option \<Rightarrow> 'w Handler list \<Rightarrow> 'w \<Rightarrow> 'w Catcher" where
  "Catch v h w =
     \<lparr>defaultHandlers = h, deferred = [], err = v, inPanic = False, world = w, trace = []\<rparr>"

text \<open>\<^verbatim>\<open>(*state)(e)\<close> with its two methods.\<close>

definition state_of :: "'w Catcher \<Rightarrow> state" where
  "state_of e = \<lparr>Panicking = inPanic e, Err = err e\<rparr>"

subsection \<open>The built-in handlers\<close>

definition Discard :: "'w Handler" where
  "Discard s er w = (Return None, w)"

definition Fatal :: "'w Handler" where
  "Fatal s er w = (Exit, w)"

subsection \<open>Applying handlers\<close>

text \<open>
  \<^verbatim>\<open>errorHandler.handle\<close>: the result is \<^verbatim>\<open>done\<close> together with the content of
  \<^verbatim>\<open>*h.err\<close> afterwards.
\<close>

definition handle :: "'w Catcher \<Rightarrow> error \<Rightarrow> 'w Handler \<Rightarrow> (bool \<times> error) outcome \<times> 'w Catcher" where
  "handle e er eh =
     (case eh (state_of e) er (world e) of
        (Return None, w) \<Rightarrow> (Return (True, er), e\<lparr>world := w\<rparr>)
      | (Return (Some newErr), w) \<Rightarrow> (Return (False, newErr), e\<lparr>world := w\<rparr>)
      | (Panic p, w) \<Rightarrow> (Panic p, e\<lparr>world := w\<rparr>)
      | (Exit, w) \<Rightarrow> (Exit, e\<lparr>world := w\<rparr>))"

text \<open>
  The loop \<^verbatim>\<open>for _, h := range hs { if eh.handle(h) { return } }\<close>, which occurs three
  times. \<open>Return (True, _)\<close> is the \<^verbatim>\<open>return\<close> inside the loop.
\<close>

fun rangeHandlers :: "'w Catcher \<Rightarrow> error \<Rightarrow> 'w Handler list \<Rightarrow> (bool \<times> error) outcome \<times> 'w Catcher" where
  "rangeHandlers e er [] = (Return (False, er), e)"
| "rangeHandlers e er (h # hs) =
     (case handle e er h of
        (Return (done, er'), e') \<Rightarrow>
          if done then (Return (True, er'), e') else rangeHandlers e' er' hs
      | (Panic p, e') \<Rightarrow> (Panic p, e')
      | (Exit, e') \<Rightarrow> (Exit, e'))"

text \<open>
  The first loop of \<^verbatim>\<open>processDeferError\<close>,
  \<^verbatim>\<open>for i := len(e.deferred); i > 0 && e.deferred[i-1].f == nil; i--\<close>.
  The arguments are \<open>i\<close> and \<^verbatim>\<open>hadHandler\<close>; the result adds \<^verbatim>\<open>hadHandler\<close> to
  that of \<open>handle\<close>. The loop starts at \<open>i = length (deferred e)\<close>, so the index
  \<open>i - 1\<close> is always inside the slice.
\<close>

fun deferHandlers :: "'w Catcher \<Rightarrow> error \<Rightarrow> nat \<Rightarrow> bool \<Rightarrow> (bool \<times> error \<times> bool) outcome \<times> 'w Catcher" where
  "deferHandlers e er 0 hadHandler = (Return (False, er, hadHandler), e)"
| "deferHandlers e er (Suc j) hadHandler =
     (case deferred e ! j of
        FuncEntry f x \<Rightarrow> (Return (False, er, hadHandler), e)
      | HandlerEntry h \<Rightarrow>
          (case handle e er h of
             (Return (done, er'), e') \<Rightarrow>
               if done then (Return (True, er', True), e') else deferHandlers e' er' j True
           | (Panic p, e') \<Rightarrow> (Panic p, e')
           | (Exit, e') \<Rightarrow> (Exit, e')))"

text \<open>\<^verbatim>\<open>if *e.err == nil { *e.err = err }\<close>\<close>

definition setErr :: "'w Catcher \<Rightarrow> error \<Rightarrow> 'w Catcher" where
  "setErr e er = (if err e = None then e\<lparr>err := Some er, trace := trace e @ [Stored er]\<rparr> else e)"

definition processDeferError :: "'w Catcher \<Rightarrow> error \<Rightarrow> unit outcome \<times> 'w Catcher" where
  "processDeferError e er =
     (case deferHandlers e er (length (deferred e)) False of
        (Return (done, er', hadHandler), e') \<Rightarrow>
          if done then (Return (), e')
          else if \<not> hadHandler then
            (case rangeHandlers e' er' (defaultHandlers e') of
               (Return (done', er''), e'') \<Rightarrow>
                 if done' then (Return (), e'') else (Return (), setErr e'' er'')
             | (Panic p, e'') \<Rightarrow> (Panic p, e'')
             | (Exit, e'') \<Rightarrow> (Exit, e''))
          else (Return (), setErr e' er')
      | (Panic p, e') \<Rightarrow> (Panic p, e')
      | (Exit, e') \<Rightarrow> (Exit, e'))"

subsection \<open>Running the deferred calls\<close>

text \<open>Handlers change the world and nothing else of the catcher.\<close>

definition onlyWorld :: "'w Catcher \<Rightarrow> 'w Catcher \<Rightarrow> bool" where
  "onlyWorld e e' \<longleftrightarrow>
     defaultHandlers e' = defaultHandlers e \<and> deferred e' = deferred e \<and> err e' = err e \<and>
     inPanic e' = inPanic e \<and> trace e' = trace e"

lemma onlyWorld_refl: "onlyWorld e e"
  by (simp add: onlyWorld_def)

lemma onlyWorld_trans: "onlyWorld e e1 \<Longrightarrow> onlyWorld e1 e2 \<Longrightarrow> onlyWorld e e2"
  by (simp add: onlyWorld_def)

lemma handle_world: "handle e er h = (res, e') \<Longrightarrow> onlyWorld e e'"
  unfolding handle_def onlyWorld_def
  by (cases "h (state_of e) er (world e)"; cases "fst (h (state_of e) er (world e))")
     (auto split: option.splits)

lemma rangeHandlers_world: "rangeHandlers e er hs = (res, e') \<Longrightarrow> onlyWorld e e'"
proof (induction hs arbitrary: e er)
  case Nil
  then show ?case by (simp add: onlyWorld_refl)
next
  case (Cons h hs)
  obtain r1 e1 where h1: "handle e er h = (r1, e1)" by (cases "handle e er h")
  then have e1: "onlyWorld e e1" by (rule handle_world)
  show ?case
  proof (cases r1)
    case (Return a)
    obtain dn er1 where a: "a = (dn, er1)" by (cases a)
    show ?thesis
    proof (cases dn)
      case True
      with Cons.prems h1 Return a e1 show ?thesis by simp
    next
      case False
      with Cons.prems h1 Return a have "rangeHandlers e1 er1 hs = (res, e')" by simp
      then have "onlyWorld e1 e'" by (rule Cons.IH)
      with e1 show ?thesis by (rule onlyWorld_trans)
    qed
  next
    case (Panic p)
    with Cons.prems h1 e1 show ?thesis by simp
  next
    case Exit
    with Cons.prems h1 e1 show ?thesis by simp
  qed
qed

lemma deferHandlers_world: "deferHandlers e er i had = (res, e') \<Longrightarrow> onlyWorld e e'"
proof (induction i arbitrary: e er had)
  case 0
  then show ?case by (simp add: onlyWorld_refl)
next
  case (Suc j)
  show ?case
  proof (cases "deferred e ! j")
    case (FuncEntry f x)
    with Suc.prems show ?thesis by (simp add: onlyWorld_refl)
  next
    case (HandlerEntry h)
    obtain r1 e1 where h1: "handle e er h = (r1, e1)" by (cases "handle e er h")
    then have e1: "onlyWorld e e1" by (rule handle_world)
    show ?thesis
    proof (cases r1)
      case (Return a)
      obtain dn er1 where a: "a = (dn, er1)" by (cases a)
      show ?thesis
      proof (cases dn)
        case True
        with Suc.prems HandlerEntry h1 Return a e1 show ?thesis by simp
      next
        case False
        with Suc.prems HandlerEntry h1 Return a
        have "deferHandlers e1 er1 j True = (res, e')" by simp
        then have "onlyWorld e1 e'" by (rule Suc.IH)
        with e1 show ?thesis by (rule onlyWorld_trans)
      qed
    next
      case (Panic p)
      with Suc.prems HandlerEntry h1 e1 show ?thesis by simp
    next
      case Exit
      with Suc.prems HandlerEntry h1 e1 show ?thesis by simp
    qed
  qed
qed

text \<open>
  \<^verbatim>\<open>processDeferError\<close> changes the world and, at most, stores its error in an empty
  \<^verbatim>\<open>*e.err\<close>.
\<close>

lemma processDeferError_shape:
  assumes "processDeferError e er = (res, e')"
  shows "\<exists>e1. onlyWorld e e1 \<and> (e' = e1 \<or> (res = Return () \<and> (\<exists>er'. e' = setErr e1 er')))"
proof -
  obtain r1 e1 where d1: "deferHandlers e er (length (deferred e)) False = (r1, e1)"
    by (cases "deferHandlers e er (length (deferred e)) False")
  then have e1: "onlyWorld e e1" by (rule deferHandlers_world)
  show ?thesis
  proof (cases r1)
    case (Return a)
    obtain dn er1 had where a: "a = (dn, er1, had)" by (cases a)
    show ?thesis
    proof (cases "dn \<or> had")
      case True
      with assms d1 Return a have "e' = e1 \<or> (res = Return () \<and> e' = setErr e1 er1)"
        by (auto simp: processDeferError_def split: if_splits)
      with e1 show ?thesis by blast
    next
      case False
      obtain r2 e2 where d2: "rangeHandlers e1 er1 (defaultHandlers e1) = (r2, e2)"
        by (cases "rangeHandlers e1 er1 (defaultHandlers e1)")
      then have "onlyWorld e1 e2" by (rule rangeHandlers_world)
      with e1 have e2: "onlyWorld e e2" by (rule onlyWorld_trans)
      from assms d1 Return a False d2
      have "(res, e') = (case r2 of
                Return (done', er'') \<Rightarrow> if done' then (Return (), e2) else (Return (), setErr e2 er'')
              | Panic p \<Rightarrow> (Panic p, e2) | Exit \<Rightarrow> (Exit, e2))"
        by (simp add: processDeferError_def)
      then have "e' = e2 \<or> (res = Return () \<and> (\<exists>er'. e' = setErr e2 er'))"
        by (cases r2) (auto split: prod.splits if_splits)
      with e2 show ?thesis by blast
    qed
  next
    case (Panic p)
    with assms d1 have "e' = e1" by (simp add: processDeferError_def)
    with e1 show ?thesis by blast
  next
    case Exit
    with assms d1 have "e' = e1" by (simp add: processDeferError_def)
    with e1 show ?thesis by blast
  qed
qed

lemma deferred_setErr: "deferred (setErr e er) = deferred e"
  by (simp add: setErr_def)

lemma deferred_processDeferError:
  "processDeferError e er = (res, e') \<Longrightarrow> deferred e' = deferred e"
  using processDeferError_shape [of e er res e'] by (auto simp: deferred_setErr onlyWorld_def)

text \<open>
  \<^verbatim>\<open>doDefers\<close>. The entry is taken off the slice before its function is called. A panic
  or an exit of the function, or of a handler of its error, leaves the loop.
\<close>

function doDefers :: "'w Catcher \<Rightarrow> nat \<Rightarrow> unit outcome \<times> 'w Catcher" where
  "doDefers e barrier =
     (if length (deferred e) > barrier then
        (let i = length (deferred e) - 1;
             d = deferred e ! i;
             e1 = e\<lparr>deferred := take i (deferred e)\<rparr>
         in case d of
              HandlerEntry h \<Rightarrow> doDefers e1 barrier
            | FuncEntry f x \<Rightarrow>
                (let e2 = e1\<lparr>trace := trace e1 @ [Called x]\<rparr>
                 in case f (state_of e1) x (world e1) of
                      (Return None, w) \<Rightarrow> doDefers (e2\<lparr>world := w\<rparr>) barrier
                    | (Return (Some er), w) \<Rightarrow>
                        (case processDeferError (e2\<lparr>world := w\<rparr>) er of
                           (Return u, e3) \<Rightarrow> doDefers e3 barrier
                         | (Panic p, e3) \<Rightarrow> (Panic p, e3)
                         | (Exit, e3) \<Rightarrow> (Exit, e3))
                    | (Panic p, w) \<Rightarrow> (Panic p, e2\<lparr>world := w\<rparr>)
                    | (Exit, w) \<Rightarrow> (Exit, e2\<lparr>world := w\<rparr>)))
      else (Return (), e))"
  by pat_completeness auto
termination
proof (relation "measure (\<lambda>(e, barrier). length (deferred e))", goal_cases)
  case 1
  show ?case by simp
next
  case (2 e barrier)
  then show ?case by simp
next
  case (3 e barrier)
  then show ?case by simp
next
  case prems: 4
  show ?case using prems
    by (auto dest: deferred_processDeferError deferred_processDeferError [OF sym])
qed


declare doDefers.simps [simp del]

text \<open>The three ways through one turn of the loop, for a stack written as \<open>ds @ [d]\<close>.\<close>

lemma doDefers_below: "length (deferred e) \<le> barrier \<Longrightarrow> doDefers e barrier = (Return (), e)"
  by (simp add: doDefers.simps [of e barrier])

lemma doDefers_HandlerEntry:
  "deferred e = ds @ [HandlerEntry h] \<Longrightarrow> barrier \<le> length ds \<Longrightarrow>
   doDefers e barrier = doDefers (e\<lparr>deferred := ds\<rparr>) barrier"
  by (simp add: doDefers.simps [of e barrier])

lemma doDefers_FuncEntry:
  "deferred e = ds @ [FuncEntry f x] \<Longrightarrow> barrier \<le> length ds \<Longrightarrow>
   doDefers e barrier =
     (case f (state_of (e\<lparr>deferred := ds\<rparr>)) x (world e) of
        (Return None, w) \<Rightarrow>
          doDefers (e\<lparr>deferred := ds, trace := trace e @ [Called x], world := w\<rparr>) barrier
      | (Return (Some er), w) \<Rightarrow>
          (case processDeferError (e\<lparr>deferred := ds, trace := trace e @ [Called x], world := w\<rparr>) er of
             (Return u, e3) \<Rightarrow> doDefers e3 barrier
           | (Panic p, e3) \<Rightarrow> (Panic p, e3)
           | (Exit, e3) \<Rightarrow> (Exit, e3))
      | (Panic p, w) \<Rightarrow> (Panic p, e\<lparr>deferred := ds, trace := trace e @ [Called x], world := w\<rparr>)
      | (Exit, w) \<Rightarrow> (Exit, e\<lparr>deferred := ds, trace := trace e @ [Called x], world := w\<rparr>))"
  by (simp add: doDefers.simps [of e barrier] Let_def)


subsection \<open>What one operation can do to the catcher\<close>

text \<open>
  Every change the catcher undergoes is one of four: user code changes the world, a handler
  entry is taken off the stack, a function entry is taken off and called, an error is
  stored in an empty \<^verbatim>\<open>*e.err\<close>.
\<close>

inductive step :: "'w Catcher \<Rightarrow> 'w Catcher \<Rightarrow> bool" where
  step_world: "step e (e\<lparr>world := w\<rparr>)"
| step_skip: "deferred e = ds @ [HandlerEntry h] \<Longrightarrow> step e (e\<lparr>deferred := ds\<rparr>)"
| step_call: "deferred e = ds @ [FuncEntry f x] \<Longrightarrow>
     step e (e\<lparr>deferred := ds, trace := trace e @ [Called x]\<rparr>)"
| step_store: "err e = None \<Longrightarrow> step e (e\<lparr>err := Some er, trace := trace e @ [Stored er]\<rparr>)"

lemma onlyWorld_step: "onlyWorld e e' \<Longrightarrow> step\<^sup>*\<^sup>* e e'"
proof -
  assume "onlyWorld e e'"
  then have "e' = e\<lparr>world := world e'\<rparr>"
    by (cases e; cases e') (simp add: onlyWorld_def)
  then show ?thesis using step_world [of e "world e'"] by simp
qed

lemma setErr_step: "step\<^sup>*\<^sup>* e (setErr e er)"
  using step_store [of e er] by (auto simp: setErr_def)

lemma processDeferError_step: "processDeferError e er = (res, e') \<Longrightarrow> step\<^sup>*\<^sup>* e e'"
proof -
  assume "processDeferError e er = (res, e')"
  then obtain e1 where "onlyWorld e e1" and "e' = e1 \<or> (\<exists>er'. e' = setErr e1 er')"
    using processDeferError_shape by blast
  then show ?thesis
    using onlyWorld_step [of e e1] setErr_step [of e1] by (auto intro: rtranclp_trans)
qed

lemma doDefers_facts:
  "doDefers e barrier = (res, e') \<Longrightarrow>
   step\<^sup>*\<^sup>* e e' \<and> (res = Return () \<longrightarrow> length (deferred e') \<le> barrier)"
proof (induction "length (deferred e)" arbitrary: e rule: less_induct)
  case less
  let ?G = "\<lambda>e0. step\<^sup>*\<^sup>* e0 e' \<and> (res = Return () \<longrightarrow> length (deferred e') \<le> barrier)"
  have lift: "?G e" if "step\<^sup>*\<^sup>* e e0" and "?G e0" for e0
    using that by (meson rtranclp_trans)
  have stop: "?G e" if "step\<^sup>*\<^sup>* e e'" and "res \<noteq> Return ()"
    using that by simp
  show ?case
  proof (cases "length (deferred e) \<le> barrier")
    case True
    with less.prems show ?thesis by (auto simp: doDefers_below)
  next
    case False
    then obtain ds d where ds: "deferred e = ds @ [d]"
      by (cases "deferred e" rule: rev_cases) auto
    with False have b: "barrier \<le> length ds" by simp
    show ?thesis
    proof (cases d)
      case (HandlerEntry h)
      let ?e1 = "e\<lparr>deferred := ds\<rparr>"
      from ds HandlerEntry have s1: "step\<^sup>*\<^sup>* e ?e1" by (simp add: step_skip r_into_rtranclp)
      from less.prems ds HandlerEntry b have "doDefers ?e1 barrier = (res, e')"
        by (simp add: doDefers_HandlerEntry)
      then have "?G ?e1" using less.hyps [of ?e1] ds by simp
      with s1 show ?thesis by (rule lift)
    next
      case (FuncEntry f x)
      let ?e2 = "e\<lparr>deferred := ds, trace := trace e @ [Called x]\<rparr>"
      from ds FuncEntry have s1: "step e ?e2" by (simp add: step_call)
      obtain r w where fr: "f (state_of (e\<lparr>deferred := ds\<rparr>)) x (world e) = (r, w)"
        by (cases "f (state_of (e\<lparr>deferred := ds\<rparr>)) x (world e)")
      let ?e3 = "?e2\<lparr>world := w\<rparr>"
      have s2: "step ?e2 ?e3" by (rule step_world)
      from s1 s2 have s3: "step\<^sup>*\<^sup>* e ?e3" by (meson converse_rtranclp_into_rtranclp rtranclp.rtrancl_refl)
      have eq: "e\<lparr>deferred := ds, trace := trace e @ [Called x], world := w\<rparr> = ?e3" by simp
      note unf = doDefers_FuncEntry [of e ds f x barrier, unfolded fr eq]
      show ?thesis
      proof (cases r)
        case (Return a)
        show ?thesis
        proof (cases a)
          case None
          with less.prems ds FuncEntry b Return unf have "doDefers ?e3 barrier = (res, e')"
            by simp
          then have "?G ?e3" using less.hyps [of ?e3] ds by simp
          with s3 show ?thesis by (rule lift)
        next
          case (Some er)
          obtain r4 e4 where p4: "processDeferError ?e3 er = (r4, e4)"
            by (cases "processDeferError ?e3 er")
          then have "step\<^sup>*\<^sup>* ?e3 e4" by (rule processDeferError_step)
          with s3 have s4: "step\<^sup>*\<^sup>* e e4" by (rule rtranclp_trans)
          from p4 have d4: "deferred e4 = ds"
            using deferred_processDeferError [of ?e3 er r4 e4] by simp
          show ?thesis
          proof (cases r4)
            case (Return u)
            with less.prems ds FuncEntry b \<open>r = Return a\<close> Some unf p4
            have "doDefers e4 barrier = (res, e')" by simp
            then have "?G e4" using less.hyps [of e4] ds d4 by simp
            with s4 show ?thesis by (rule lift)
          next
            case (Panic p)
            with less.prems ds FuncEntry b \<open>r = Return a\<close> Some unf p4
            have "e' = e4 \<and> res \<noteq> Return ()" by auto
            with s4 show ?thesis by (intro stop) simp_all
          next
            case Exit
            with less.prems ds FuncEntry b \<open>r = Return a\<close> Some unf p4
            have "e' = e4 \<and> res \<noteq> Return ()" by auto
            with s4 show ?thesis by (intro stop) simp_all
          qed
        qed
      next
        case (Panic p)
        with less.prems ds FuncEntry b unf have "e' = ?e3 \<and> res \<noteq> Return ()" by auto
        with s3 show ?thesis by (intro stop) simp_all
      next
        case Exit
        with less.prems ds FuncEntry b unf have "e' = ?e3 \<and> res \<noteq> Return ()" by auto
        with s3 show ?thesis by (intro stop) simp_all
      qed
    qed
  qed
qed

lemma doDefers_step: "doDefers e barrier = (res, e') \<Longrightarrow> step\<^sup>*\<^sup>* e e'"
  by (simp add: doDefers_facts)

lemma doDefers_Return: "doDefers e barrier = (Return u, e') \<Longrightarrow> length (deferred e') \<le> barrier"
  using doDefers_facts [of e barrier "Return u" e'] by simp

lemma step_length: "step e e' \<Longrightarrow> length (deferred e') \<le> length (deferred e)"
  by (induction rule: step.induct) simp_all

lemma steps_length: "step\<^sup>*\<^sup>* e e' \<Longrightarrow> length (deferred e') \<le> length (deferred e)"
  by (induction rule: rtranclp_induct) (auto dest: step_length)

lemma doDefers_shrinks:
  assumes "doDefers e barrier = (res, e')" and "barrier < length (deferred e)"
  shows "length (deferred e') < length (deferred e)"
proof -
  from assms(2) obtain ds d where ds: "deferred e = ds @ [d]"
    by (cases "deferred e" rule: rev_cases) auto
  with assms(2) have b: "barrier \<le> length ds" by simp
  show ?thesis
  proof (cases d)
    case (HandlerEntry h)
    with assms(1) ds b have "doDefers (e\<lparr>deferred := ds\<rparr>) barrier = (res, e')"
      by (simp add: doDefers_HandlerEntry)
    then have "length (deferred e') \<le> length ds"
      using steps_length [OF doDefers_step] by fastforce
    with ds show ?thesis by simp
  next
    case (FuncEntry f x)
    let ?e3 = "\<lambda>w. e\<lparr>deferred := ds, trace := trace e @ [Called x], world := w\<rparr>"
    obtain r w where fr: "f (state_of (e\<lparr>deferred := ds\<rparr>)) x (world e) = (r, w)"
      by (cases "f (state_of (e\<lparr>deferred := ds\<rparr>)) x (world e)")
    note unf = doDefers_FuncEntry [of e ds f x barrier, unfolded fr]
    have "length (deferred e') \<le> length ds"
    proof (cases r)
      case (Return a)
      show ?thesis
      proof (cases a)
        case None
        with assms(1) ds FuncEntry b Return unf have "doDefers (?e3 w) barrier = (res, e')"
          by simp
        then show ?thesis using steps_length [OF doDefers_step] by fastforce
      next
        case (Some er)
        obtain r4 e4 where p4: "processDeferError (?e3 w) er = (r4, e4)"
          by (cases "processDeferError (?e3 w) er")
        then have d4: "deferred e4 = ds"
          using deferred_processDeferError [of "?e3 w" er r4 e4] by simp
        show ?thesis
        proof (cases r4)
          case (Return u)
          with assms(1) ds FuncEntry b \<open>r = Return a\<close> Some unf p4
          have "doDefers e4 barrier = (res, e')" by simp
          then show ?thesis using steps_length [OF doDefers_step] d4 by fastforce
        next
          case (Panic p)
          with assms(1) ds FuncEntry b \<open>r = Return a\<close> Some unf p4 d4 show ?thesis by simp
        next
          case Exit
          with assms(1) ds FuncEntry b \<open>r = Return a\<close> Some unf p4 d4 show ?thesis by simp
        qed
      qed
    next
      case (Panic p)
      with assms(1) ds FuncEntry b unf show ?thesis by auto
    next
      case Exit
      with assms(1) ds FuncEntry b unf show ?thesis by auto
    qed
    with ds show ?thesis by simp
  qed
qed

subsection \<open>Handle and Must\<close>

text \<open>
  \<^verbatim>\<open>err2, ok := r.(error); if !ok { err2 = fmt.Errorf("errd: paniced: %v", r) }\<close>
\<close>

definition panicError :: "payload \<Rightarrow> error" where
  "panicError p = (case p of PError er \<Rightarrow> er | PValue v \<Rightarrow> Errorf (''errd: paniced: '' @ v))"

text \<open>
  \<^verbatim>\<open>Handle\<close> and \<^verbatim>\<open>finishDefer\<close>. \<^verbatim>\<open>finishDefer\<close> defers \<^verbatim>\<open>e.Handle()\<close>, which
  therefore runs when \<^verbatim>\<open>doDefers\<close> returns (\<^verbatim>\<open>recover()\<close> is then \<^verbatim>\<open>nil\<close>) and when
  it panics (\<^verbatim>\<open>recover()\<close> is then the payload). If that deferred call returns, so does
  \<^verbatim>\<open>finishDefer\<close>; if it panics, \<^verbatim>\<open>finishDefer\<close> panics with its payload, and the
  \<^verbatim>\<open>panic(r)\<close> of the calling \<^verbatim>\<open>Handle\<close> is not reached.
\<close>

function Handle :: "payload option \<Rightarrow> 'w Catcher \<Rightarrow> unit outcome \<times> 'w Catcher"
  and finishDefer :: "'w Catcher \<Rightarrow> unit outcome \<times> 'w Catcher" where
  "Handle r e =
     (case r of
        None \<Rightarrow> finishDefer e
      | Some p \<Rightarrow>
          if p = PError errOurPanic then finishDefer e
          else
            (let e1 = e\<lparr>inPanic := True\<rparr>;
                 err2 = panicError p;
                 e2 = e1\<lparr>err := Some err2, trace := trace e1 @ [Stored err2]\<rparr>
             in case finishDefer e2 of
                  (Return u, e3) \<Rightarrow> (Panic p, e3)
                | (Panic q, e3) \<Rightarrow> (Panic q, e3)
                | (Exit, e3) \<Rightarrow> (Exit, e3)))"
| "finishDefer e =
     (if length (deferred e) > 0 then
        (case doDefers e 0 of
           (Return u, e1) \<Rightarrow> Handle None e1
         | (Panic p, e1) \<Rightarrow> Handle (Some p) e1
         | (Exit, e1) \<Rightarrow> (Exit, e1))
      else (Return (), e))"
  by pat_completeness auto
termination
proof (relation "measure (\<lambda>a. case a of Inl (r, e) \<Rightarrow> 2 * length (deferred e) + 1
                                 | Inr e \<Rightarrow> 2 * length (deferred e))", goal_cases)
  case 1
  show ?case by simp
next
  case 2
  show ?case by simp
next
  case 3
  show ?case by simp
next
  case prems: 4
  show ?case using prems by auto
next
  case prems: 5
  show ?case using prems
    by (auto dest!: doDefers_shrinks doDefers_shrinks [OF sym])
next
  case prems: 6
  show ?case using prems
    by (auto dest!: doDefers_shrinks doDefers_shrinks [OF sym])
qed

declare Handle.simps [simp del] finishDefer.simps [simp del]

text \<open>\<^verbatim>\<open>bail\<close>, \<^verbatim>\<open>processError\<close> and \<^verbatim>\<open>Must\<close>.\<close>

definition bail :: "'w Catcher \<Rightarrow> unit outcome \<times> 'w Catcher" where
  "bail e =
     (case doDefers e 0 of
        (Return u, e1) \<Rightarrow> (Panic (PError errOurPanic), e1)
      | (Panic p, e1) \<Rightarrow> (Panic p, e1)
      | (Exit, e1) \<Rightarrow> (Exit, e1))"

definition processError :: "'w Catcher \<Rightarrow> error \<Rightarrow> 'w Handler list \<Rightarrow> unit outcome \<times> 'w Catcher" where
  "processError e er handlers =
     (case rangeHandlers e er handlers of
        (Return (done, er1), e1) \<Rightarrow>
          if done then (Return (), e1)
          else
            (case (if length handlers = 0 then rangeHandlers e1 er1 (defaultHandlers e1)
                   else (Return (False, er1), e1)) of
               (Return (done', er2), e2) \<Rightarrow>
                 if done' then (Return (), e2) else bail (setErr e2 er2)
             | (Panic p, e2) \<Rightarrow> (Panic p, e2)
             | (Exit, e2) \<Rightarrow> (Exit, e2))
      | (Panic p, e1) \<Rightarrow> (Panic p, e1)
      | (Exit, e1) \<Rightarrow> (Exit, e1))"

definition Must :: "'w Catcher \<Rightarrow> error option \<Rightarrow> 'w Handler list \<Rightarrow> unit outcome \<times> 'w Catcher" where
  "Must e v h = (case v of None \<Rightarrow> (Return (), e) | Some er \<Rightarrow> processError e er h)"

text \<open>
  A function that has run \<^verbatim>\<open>defer e.Handle()\<close>: when its body returns or panics,
  \<^verbatim>\<open>Handle\<close> runs with what \<^verbatim>\<open>recover()\<close> gives then. Nothing runs after \<^verbatim>\<open>os.Exit\<close>.
\<close>

definition deferHandle :: "unit outcome \<times> 'w Catcher \<Rightarrow> unit outcome \<times> 'w Catcher" where
  "deferHandle body =
     (case body of
        (Return u, e) \<Rightarrow> Handle None e
      | (Panic p, e) \<Rightarrow> Handle (Some p) e
      | (Exit, e) \<Rightarrow> (Exit, e))"

subsection \<open>Unfolding Handle\<close>

lemma finishDefer_empty: "deferred e = [] \<Longrightarrow> finishDefer e = (Return (), e)"
  by (simp add: finishDefer.simps [of e])

lemma finishDefer_nonempty:
  "deferred e \<noteq> [] \<Longrightarrow>
   finishDefer e =
     (case doDefers e 0 of
        (Return u, e1) \<Rightarrow> Handle None e1
      | (Panic p, e1) \<Rightarrow> Handle (Some p) e1
      | (Exit, e1) \<Rightarrow> (Exit, e1))"
  by (simp add: finishDefer.simps [of e])

lemma Handle_None: "Handle None e = finishDefer e"
  by (simp add: Handle.simps [of None e])

lemma Handle_ourPanic: "Handle (Some (PError errOurPanic)) e = finishDefer e"
  by (simp add: Handle.simps [of "Some (PError errOurPanic)" e])

text \<open>The catcher after the first three statements of the \<^verbatim>\<open>default\<close> case.\<close>

definition caught :: "'w Catcher \<Rightarrow> payload \<Rightarrow> 'w Catcher" where
  "caught e p = e\<lparr>inPanic := True, err := Some (panicError p),
                  trace := trace e @ [Stored (panicError p)]\<rparr>"

lemma Handle_default:
  "p \<noteq> PError errOurPanic \<Longrightarrow>
   Handle (Some p) e =
     (case finishDefer (caught e p) of
        (Return u, e3) \<Rightarrow> (Panic p, e3)
      | (Panic q, e3) \<Rightarrow> (Panic q, e3)
      | (Exit, e3) \<Rightarrow> (Exit, e3))"
  by (simp add: Handle.simps [of "Some p" e] caught_def Let_def)


subsection \<open>Reading the trace and the stack\<close>

text \<open>
  \<open>called t\<close> are the values the deferred functions were called on, in the order of the
  calls; \<open>stored t\<close> are the errors assigned to \<^verbatim>\<open>*e.err\<close>; \<open>pending ds\<close> are the
  values of the function entries of a stack, from the bottom (registered first) to the top.
\<close>

fun called :: "event list \<Rightarrow> nat list" where
  "called [] = []"
| "called (Called x # t) = x # called t"
| "called (Stored er # t) = called t"

fun stored :: "event list \<Rightarrow> error list" where
  "stored [] = []"
| "stored (Called x # t) = stored t"
| "stored (Stored er # t) = er # stored t"

fun pending :: "'w deferData list \<Rightarrow> nat list" where
  "pending [] = []"
| "pending (HandlerEntry h # ds) = pending ds"
| "pending (FuncEntry f x # ds) = x # pending ds"

lemma called_append: "called (t @ t') = called t @ called t'"
  by (induction t rule: called.induct) simp_all

lemma stored_append: "stored (t @ t') = stored t @ stored t'"
  by (induction t rule: stored.induct) simp_all

lemma pending_append: "pending (ds @ ds') = pending ds @ pending ds'"
  by (induction ds rule: pending.induct) simp_all

subsection \<open>Faults\<close>

text \<open>
  \<^verbatim>\<open>Handle\<close> adds a fifth change: in its \<^verbatim>\<open>default\<close> case it sets \<^verbatim>\<open>inPanic\<close> and
  overwrites \<^verbatim>\<open>*e.err\<close>.
\<close>

inductive move :: "'w Catcher \<Rightarrow> 'w Catcher \<Rightarrow> bool" where
  move_step: "step e e' \<Longrightarrow> move e e'"
| move_caught: "move e (caught e p)"

lemma steps_moves: "step\<^sup>*\<^sup>* e e' \<Longrightarrow> move\<^sup>*\<^sup>* e e'"
  by (induction rule: rtranclp_induct) (auto intro: move_step rtranclp.rtrancl_into_rtrancl)

lemma rangeHandlers_step: "rangeHandlers e er hs = (res, e') \<Longrightarrow> step\<^sup>*\<^sup>* e e'"
  by (rule onlyWorld_step) (rule rangeHandlers_world)

lemma bail_step: "bail e = (res, e') \<Longrightarrow> step\<^sup>*\<^sup>* e e'"
proof -
  assume a: "bail e = (res, e')"
  obtain r1 e1 where d: "doDefers e 0 = (r1, e1)" by (cases "doDefers e 0")
  with a have "e' = e1" by (cases r1) (simp_all add: bail_def)
  with d show ?thesis by (simp add: doDefers_step)
qed

text \<open>
  \<^verbatim>\<open>processError\<close> with the choice of the handlers made beforehand: the handlers of the
  call if there are any, else the default handlers.
\<close>

lemma processError_chain:
  "processError e er handlers =
     (case rangeHandlers e er (if handlers = [] then defaultHandlers e else handlers) of
        (Return (done, er1), e1) \<Rightarrow> if done then (Return (), e1) else bail (setErr e1 er1)
      | (Panic p, e1) \<Rightarrow> (Panic p, e1)
      | (Exit, e1) \<Rightarrow> (Exit, e1))"
proof (cases "handlers = []")
  case True
  then show ?thesis
    by (simp add: processError_def split: prod.splits outcome.splits)
next
  case False
  then show ?thesis
    by (simp add: processError_def split: prod.splits outcome.splits)
qed

lemma processError_step: "processError e er hs = (res, e') \<Longrightarrow> step\<^sup>*\<^sup>* e e'"
proof -
  assume a: "processError e er hs = (res, e')"
  let ?hs = "if hs = [] then defaultHandlers e else hs"
  obtain r1 e1 where d: "rangeHandlers e er ?hs = (r1, e1)"
    by (cases "rangeHandlers e er ?hs")
  then have s1: "step\<^sup>*\<^sup>* e e1" by (rule rangeHandlers_step)
  show ?thesis
  proof (cases r1)
    case (Return b)
    obtain dn er1 where b: "b = (dn, er1)" by (cases b)
    show ?thesis
    proof (cases dn)
      case True
      with a d Return b have "e' = e1" by (simp add: processError_chain)
      with s1 show ?thesis by simp
    next
      case False
      with a d Return b have "bail (setErr e1 er1) = (res, e')"
        by (simp add: processError_chain)
      then have "step\<^sup>*\<^sup>* (setErr e1 er1) e'" by (rule bail_step)
      with s1 setErr_step [of e1 er1] show ?thesis by (meson rtranclp_trans)
    qed
  next
    case (Panic p)
    with a d have "e' = e1" by (simp add: processError_chain)
    with s1 show ?thesis by simp
  next
    case Exit
    with a d have "e' = e1" by (simp add: processError_chain)
    with s1 show ?thesis by simp
  qed
qed

lemma Must_step: "Must e v hs = (res, e') \<Longrightarrow> step\<^sup>*\<^sup>* e e'"
  by (cases v) (auto simp: Must_def dest: processError_step)


subsection \<open>What Handle does as a whole\<close>

text \<open>
  The facts about a complete run of \<^verbatim>\<open>Handle\<close>, whatever the deferred functions and
  the handlers do: the catcher changes by the five changes above only; unless the process
  exits, the stack is empty afterwards; \<^verbatim>\<open>errOurPanic\<close> never leaves \<^verbatim>\<open>Handle\<close>; and
  \<^verbatim>\<open>Handle\<close> returns only if no panic other than \<^verbatim>\<open>errOurPanic\<close> was caught.
\<close>

definition finished :: "'w Catcher \<Rightarrow> unit outcome \<times> 'w Catcher \<Rightarrow> bool" where
  "finished e out \<longleftrightarrow>
     move\<^sup>*\<^sup>* e (snd out) \<and>
     (fst out \<noteq> Exit \<longrightarrow> deferred (snd out) = []) \<and>
     fst out \<noteq> Panic (PError errOurPanic) \<and>
     (fst out = Return () \<longrightarrow> step\<^sup>*\<^sup>* e (snd out))"

lemma finished_after:
  assumes "step\<^sup>*\<^sup>* e e1" and "finished e1 out"
  shows "finished e out"
  using assms unfolding finished_def
  by (meson rtranclp_trans steps_moves)

lemma Handle_finishDefer_finished:
  "finished (e :: 'w Catcher) (Handle r e) \<and>
     (fst (Handle r e) = Return () \<longrightarrow> r = None \<or> r = Some (PError errOurPanic))"
  "finished (e0 :: 'w Catcher) (finishDefer e0)"
proof (induction r e and e0 rule: Handle_finishDefer.induct)
  case (1 r e)
  show ?case
  proof (cases "r = None \<or> r = Some (PError errOurPanic)")
    case True
    then have "Handle r e = finishDefer e" by (auto simp: Handle_None Handle_ourPanic)
    moreover from True have "finished e (finishDefer e)" using "1.IH"(1,2) by blast
    ultimately show ?thesis using True by simp
  next
    case False
    then obtain p where p: "r = Some p" "p \<noteq> PError errOurPanic" by auto
    have f: "finished (caught e p) (finishDefer (caught e p))"
      using "1.IH"(3) [OF p(1) p(2) refl refl refl] by (simp add: caught_def)
    obtain r3 e3 where fd: "finishDefer (caught e p) = (r3, e3)"
      by (cases "finishDefer (caught e p)")
    have m: "move\<^sup>*\<^sup>* e (caught e p)" by (simp add: move_caught r_into_rtranclp)
    from p fd have h: "Handle r e = (case r3 of Return u \<Rightarrow> Panic p | Panic q \<Rightarrow> Panic q | Exit \<Rightarrow> Exit, e3)"
      by (cases r3) (simp_all add: Handle_default)
    from f fd have "move\<^sup>*\<^sup>* (caught e p) e3" by (simp add: finished_def)
    with m have "move\<^sup>*\<^sup>* e e3" by (rule rtranclp_trans)
    moreover from f fd have "r3 \<noteq> Exit \<longrightarrow> deferred e3 = []" by (simp add: finished_def)
    moreover from f fd have "r3 \<noteq> Panic (PError errOurPanic)" by (simp add: finished_def)
    ultimately show ?thesis using h p
      by (cases r3) (simp_all add: finished_def)
  qed
next
  case (2 e)
  show ?case
  proof (cases "deferred e = []")
    case True
    then show ?thesis by (simp add: finishDefer_empty finished_def)
  next
    case False
    obtain r1 e1 where d: "doDefers e 0 = (r1, e1)" by (cases "doDefers e 0")
    then have s: "step\<^sup>*\<^sup>* e e1" by (rule doDefers_step)
    show ?thesis
    proof (cases r1)
      case (Return u)
      with False d have "finished e1 (Handle None e1)" using "2.IH"(1) [of r1 e1 u] by simp
      with s have "finished e (Handle None e1)" by (rule finished_after)
      with False d Return show ?thesis by (simp add: finishDefer_nonempty)
    next
      case (Panic q)
      with False d have "finished e1 (Handle (Some q) e1)" using "2.IH"(2) [of r1 e1 q] by simp
      with s have "finished e (Handle (Some q) e1)" by (rule finished_after)
      with False d Panic show ?thesis by (simp add: finishDefer_nonempty)
    next
      case Exit
      with False d s show ?thesis
        by (simp add: finishDefer_nonempty finished_def steps_moves)
    qed
  qed
qed

lemma Handle_finished: "finished e (Handle r e)"
  using Handle_finishDefer_finished(1) by blast

text \<open>
  The \<^verbatim>\<open>default\<close> case: the catcher is first changed to \<open>caught e p\<close>, then
  \<^verbatim>\<open>finishDefer\<close> runs, and \<^verbatim>\<open>Handle\<close> never returns; the panic it ends with is
  the one it caught if \<^verbatim>\<open>finishDefer\<close> returns.
\<close>

lemma Handle_default_outcome:
  assumes "p \<noteq> PError errOurPanic" and "Handle (Some p) e = (res, e')"
  shows "move\<^sup>*\<^sup>* (caught e p) e'" and "res \<noteq> Return ()"
    and "fst (finishDefer (caught e p)) = Return () \<Longrightarrow> res = Panic p"
proof -
  obtain r3 e3 where f: "finishDefer (caught e p) = (r3, e3)"
    by (cases "finishDefer (caught e p)")
  with assms have r: "e' = e3 \<and> res = (case r3 of Return u \<Rightarrow> Panic p | Panic q \<Rightarrow> Panic q | Exit \<Rightarrow> Exit)"
    by (cases r3) (auto simp: Handle_default)
  with f show "move\<^sup>*\<^sup>* (caught e p) e'"
    using Handle_finishDefer_finished(2) [of "caught e p"] by (simp add: finished_def)
  from r show "res \<noteq> Return ()" by (cases r3) simp_all
  from r f show "fst (finishDefer (caught e p)) = Return () \<Longrightarrow> res = Panic p" by simp
qed

subsection \<open>Invariants of the changes\<close>

lemma step_err: "step e e' \<Longrightarrow> err e \<noteq> None \<Longrightarrow> err e' = err e"
  by (induction rule: step.induct) simp_all

lemma steps_err: "step\<^sup>*\<^sup>* e e' \<Longrightarrow> err e \<noteq> None \<Longrightarrow> err e' = err e"
  by (induction rule: rtranclp_induct) (simp_all add: step_err)

lemma step_inPanic: "step e e' \<Longrightarrow> inPanic e' = inPanic e"
  by (induction rule: step.induct) simp_all

lemma step_order:
  "step e e' \<Longrightarrow>
   called (trace e') @ rev (pending (deferred e')) = called (trace e) @ rev (pending (deferred e))"
  by (induction rule: step.induct) (simp_all add: called_append pending_append)

lemma move_order:
  "move e e' \<Longrightarrow>
   called (trace e') @ rev (pending (deferred e')) = called (trace e) @ rev (pending (deferred e))"
  by (induction rule: move.induct) (simp_all add: step_order caught_def called_append)

lemma moves_order:
  "move\<^sup>*\<^sup>* e e' \<Longrightarrow>
   called (trace e') @ rev (pending (deferred e')) = called (trace e) @ rev (pending (deferred e))"
  by (induction rule: rtranclp_induct) (simp_all add: move_order)

lemma step_stack: "step e e' \<Longrightarrow> \<exists>ds. deferred e = deferred e' @ ds"
  by (induction rule: step.induct) simp_all

lemma move_stack: "move e e' \<Longrightarrow> \<exists>ds. deferred e = deferred e' @ ds"
  by (induction rule: move.induct) (simp_all add: step_stack caught_def)

lemma moves_stack: "move\<^sup>*\<^sup>* e e' \<Longrightarrow> \<exists>ds. deferred e = deferred e' @ ds"
proof (induction rule: rtranclp_induct)
  case base
  show ?case by simp
next
  case (step y z)
  from step.hyps(2) obtain ds where "deferred y = deferred z @ ds" using move_stack by blast
  moreover from step.IH obtain ds' where "deferred e = deferred y @ ds'" by blast
  ultimately have "deferred e = deferred z @ (ds @ ds')" by simp
  then show ?case by blast
qed

text \<open>The calls made are always the first ones of the stack read from the top.\<close>

lemma moves_called_prefix:
  assumes "move\<^sup>*\<^sup>* e e'"
  shows "\<exists>k. called (trace e') = called (trace e) @ take k (rev (pending (deferred e)))"
proof -
  from assms obtain ds where ds: "deferred e = deferred e' @ ds" using moves_stack by blast
  from assms have "called (trace e') @ rev (pending (deferred e')) =
      called (trace e) @ rev (pending (deferred e))" by (rule moves_order)
  with ds have "called (trace e') = called (trace e) @ rev (pending ds)"
    by (simp add: pending_append)
  moreover from ds have "take (length (pending ds)) (rev (pending (deferred e))) = rev (pending ds)"
    by (simp add: pending_append)
  ultimately show ?thesis by metis
qed

lemma moves_called_all:
  assumes "move\<^sup>*\<^sup>* e e'" and "deferred e' = []"
  shows "called (trace e') = called (trace e) @ rev (pending (deferred e))"
  using moves_order [OF assms(1)] assms(2) by simp

lemma move_err_kept: "move e e' \<Longrightarrow> err e \<noteq> None \<Longrightarrow> err e' \<noteq> None"
  by (induction rule: move.induct) (simp_all add: step_err caught_def)

lemma moves_err_kept: "move\<^sup>*\<^sup>* e e' \<Longrightarrow> err e \<noteq> None \<Longrightarrow> err e' \<noteq> None"
  by (induction rule: rtranclp_induct) (auto dest: move_err_kept)

lemma move_inPanic: "move e e' \<Longrightarrow> inPanic e \<Longrightarrow> inPanic e'"
  by (induction rule: move.induct) (simp_all add: step_inPanic caught_def)

lemma moves_inPanic: "move\<^sup>*\<^sup>* e e' \<Longrightarrow> inPanic e \<Longrightarrow> inPanic e'"
  by (induction rule: rtranclp_induct) (auto dest: move_inPanic)

lemma move_panic_err:
  "move e e' \<Longrightarrow> (inPanic e \<longrightarrow> err e \<noteq> None) \<Longrightarrow> (inPanic e' \<longrightarrow> err e' \<noteq> None)"
  by (induction rule: move.induct) (auto simp: caught_def step_inPanic dest: step_err)

lemma moves_panic_err:
  "move\<^sup>*\<^sup>* e e' \<Longrightarrow> (inPanic e \<longrightarrow> err e \<noteq> None) \<Longrightarrow> (inPanic e' \<longrightarrow> err e' \<noteq> None)"
proof (induction rule: rtranclp_induct)
  case base
  then show ?case by simp
next
  case (step y z)
  then show ?case using move_panic_err [of y z] by blast
qed

text \<open>
  Assignments to \<^verbatim>\<open>*e.err\<close>: as long as no panic is caught there is at most one, into
  an empty variable, and its value stays.
\<close>

definition assigned :: "error option \<Rightarrow> error option \<Rightarrow> error list" where
  "assigned before after =
     (case before of
        None \<Rightarrow> (case after of None \<Rightarrow> [] | Some x \<Rightarrow> [x])
      | Some x \<Rightarrow> [])"

lemma step_stored:
  "step e e' \<Longrightarrow> stored (trace e') = stored (trace e) @ assigned (err e) (err e')"
  by (induction rule: step.induct) (auto simp: assigned_def stored_append split: option.splits)

lemma steps_stored:
  "step\<^sup>*\<^sup>* e e' \<Longrightarrow> stored (trace e') = stored (trace e) @ assigned (err e) (err e')"
proof (induction rule: rtranclp_induct)
  case base
  show ?case by (simp add: assigned_def split: option.splits)
next
  case (step y z)
  have yz: "stored (trace z) = stored (trace y) @ assigned (err y) (err z)"
    using step.hyps(2) by (rule step_stored)
  show ?case
  proof (cases "err e")
    case None
    show ?thesis
    proof (cases "err y")
      case None
      with yz step.IH \<open>err e = None\<close> show ?thesis by (simp add: assigned_def)
    next
      case (Some a)
      with step.hyps(2) have "err z = Some a" using step_err [of y z] by simp
      with yz step.IH \<open>err e = None\<close> Some show ?thesis by (simp add: assigned_def)
    qed
  next
    case (Some a)
    with step.hyps(1) have "err y = Some a" using steps_err [of e y] by simp
    with yz step.IH Some show ?thesis by (simp add: assigned_def)
  qed
qed

lemma move_trace: "move e e' \<Longrightarrow> \<exists>t. trace e' = trace e @ t"
proof (induction rule: move.induct)
  case (move_step e e')
  then show ?case by (induction rule: step.induct) simp_all
next
  case (move_caught e p)
  show ?case by (simp add: caught_def)
qed

lemma moves_trace: "move\<^sup>*\<^sup>* e e' \<Longrightarrow> \<exists>t. trace e' = trace e @ t"
proof (induction rule: rtranclp_induct)
  case base
  show ?case by simp
next
  case (step y z)
  from step.hyps(2) obtain t where "trace z = trace y @ t" using move_trace by blast
  moreover from step.IH obtain t' where "trace y = trace e @ t'" by blast
  ultimately have "trace z = trace e @ (t' @ t)" by simp
  then show ?case by blast
qed

text \<open>The whole of a function with \<^verbatim>\<open>defer e.Handle()\<close> whose body is one \<^verbatim>\<open>Must\<close>.\<close>

lemma deferHandle_finished:
  assumes "step\<^sup>*\<^sup>* e (snd body)"
  shows "finished e (deferHandle body)"
proof -
  obtain r1 e1 where b: "body = (r1, e1)" by (cases body)
  with assms have s: "step\<^sup>*\<^sup>* e e1" by simp
  show ?thesis
  proof (cases r1)
    case (Return u)
    with b have "deferHandle body = Handle None e1" by (simp add: deferHandle_def)
    with s show ?thesis using finished_after [OF _ Handle_finished] by metis
  next
    case (Panic p)
    with b have "deferHandle body = Handle (Some p) e1" by (simp add: deferHandle_def)
    with s show ?thesis using finished_after [OF _ Handle_finished] by metis
  next
    case Exit
    with b s show ?thesis by (simp add: deferHandle_def finished_def steps_moves)
  qed
qed

lemma deferHandle_Must_finished: "finished e (deferHandle (Must e v hs))"
  by (rule deferHandle_finished) (metis Must_step prod.collapse)


subsection \<open>The handlers of an error\<close>

text \<open>
  \<open>ownHandlers ds\<close> are the handlers of the handler entries that lie on top of the stack
  \<open>ds\<close>, the topmost first, down to the first function entry. \<^verbatim>\<open>processDeferError\<close> runs
  when \<^verbatim>\<open>doDefers\<close> has taken the failing function entry off, so these are the entries
  that lay directly below that entry.
\<close>

fun leadingHandlers :: "'w deferData list \<Rightarrow> 'w Handler list" where
  "leadingHandlers [] = []"
| "leadingHandlers (HandlerEntry h # ds) = h # leadingHandlers ds"
| "leadingHandlers (FuncEntry f x # ds) = []"

definition ownHandlers :: "'w deferData list \<Rightarrow> 'w Handler list" where
  "ownHandlers ds = leadingHandlers (rev ds)"

lemma ownHandlers_simps:
  "ownHandlers [] = []"
  "ownHandlers (ds @ [HandlerEntry h]) = h # ownHandlers ds"
  "ownHandlers (ds @ [FuncEntry f x]) = []"
  by (simp_all add: ownHandlers_def)

lemma ownHandlers_append_handlers:
  "ownHandlers (ds @ map HandlerEntry hs) = rev hs @ ownHandlers ds"
proof (induction hs rule: rev_induct)
  case Nil
  show ?case by simp
next
  case (snoc h hs)
  have "ownHandlers (ds @ map HandlerEntry (hs @ [h])) =
      ownHandlers ((ds @ map HandlerEntry hs) @ [HandlerEntry h])"
    by simp
  also have "\<dots> = h # ownHandlers (ds @ map HandlerEntry hs)"
    by (rule ownHandlers_simps)
  finally show ?case using snoc.IH by simp
qed

text \<open>The first loop of \<^verbatim>\<open>processDeferError\<close> applies exactly these handlers.\<close>

lemma deferHandlers_ownHandlers:
  "i \<le> length (deferred e) \<Longrightarrow>
   deferHandlers e er i had =
     (case rangeHandlers e er (ownHandlers (take i (deferred e))) of
        (Return (dn, er1), e1) \<Rightarrow>
          (Return (dn, er1, had \<or> ownHandlers (take i (deferred e)) \<noteq> []), e1)
      | (Panic p, e1) \<Rightarrow> (Panic p, e1)
      | (Exit, e1) \<Rightarrow> (Exit, e1))"
proof (induction i arbitrary: e er had)
  case 0
  show ?case by (simp add: ownHandlers_simps)
next
  case (Suc j)
  then have j: "j < length (deferred e)" by simp
  then have t: "take (Suc j) (deferred e) = take j (deferred e) @ [deferred e ! j]"
    by (rule take_Suc_conv_app_nth)
  show ?case
  proof (cases "deferred e ! j")
    case (FuncEntry f x)
    with t show ?thesis by (simp add: ownHandlers_simps)
  next
    case (HandlerEntry h)
    with t have o: "ownHandlers (take (Suc j) (deferred e)) = h # ownHandlers (take j (deferred e))"
      by (simp add: ownHandlers_simps)
    obtain r1 e1 where h1: "handle e er h = (r1, e1)" by (cases "handle e er h")
    then have d1: "deferred e1 = deferred e"
      using handle_world [of e er h r1 e1] by (simp add: onlyWorld_def)
    show ?thesis
    proof (cases r1)
      case (Return a)
      obtain dn er1 where a: "a = (dn, er1)" by (cases a)
      show ?thesis
      proof (cases dn)
        case True
        with HandlerEntry h1 Return a o show ?thesis by simp
      next
        case False
        from j d1 have "j \<le> length (deferred e1)" by simp
        then have "deferHandlers e1 er1 j True =
            (case rangeHandlers e1 er1 (ownHandlers (take j (deferred e1))) of
               (Return (dn, er1), e1') \<Rightarrow>
                 (Return (dn, er1, True \<or> ownHandlers (take j (deferred e1)) \<noteq> []), e1')
             | (Panic p, e1') \<Rightarrow> (Panic p, e1')
             | (Exit, e1') \<Rightarrow> (Exit, e1'))"
          by (rule Suc.IH)
        with False HandlerEntry h1 Return a o d1 show ?thesis
          by (simp split: prod.splits outcome.splits)
      qed
    next
      case (Panic p)
      with HandlerEntry h1 o show ?thesis by simp
    next
      case Exit
      with HandlerEntry h1 o show ?thesis by simp
    qed
  qed
qed

text \<open>
  \<^verbatim>\<open>processDeferError\<close> with the choice of the handlers made beforehand: the handlers
  on top of the stack if there are any, else the default handlers.
\<close>

lemma processDeferError_chain:
  "processDeferError e er =
     (case rangeHandlers e er
             (if ownHandlers (deferred e) = [] then defaultHandlers e else ownHandlers (deferred e)) of
        (Return (dn, er1), e1) \<Rightarrow> (Return (), if dn then e1 else setErr e1 er1)
      | (Panic p, e1) \<Rightarrow> (Panic p, e1)
      | (Exit, e1) \<Rightarrow> (Exit, e1))"
proof (cases "ownHandlers (deferred e) = []")
  case True
  then show ?thesis
    by (simp add: processDeferError_def deferHandlers_ownHandlers
        split: prod.splits outcome.splits)
next
  case False
  then show ?thesis
    by (simp add: processDeferError_def deferHandlers_ownHandlers
        split: prod.splits outcome.splits)
qed

text \<open>Handler entries on top of the stack are taken off without any effect.\<close>

lemma doDefers_handlers:
  "deferred e = ds @ map HandlerEntry hs \<Longrightarrow> barrier \<le> length ds \<Longrightarrow>
   doDefers e barrier = doDefers (e\<lparr>deferred := ds\<rparr>) barrier"
proof (induction hs arbitrary: e rule: rev_induct)
  case Nil
  then have "e\<lparr>deferred := ds\<rparr> = e" by simp
  then show ?case by simp
next
  case (snoc h hs)
  let ?e1 = "e\<lparr>deferred := ds @ map HandlerEntry hs\<rparr>"
  from snoc.prems have "deferred e = (ds @ map HandlerEntry hs) @ [HandlerEntry h]" by simp
  moreover from snoc.prems have "barrier \<le> length (ds @ map HandlerEntry hs)" by simp
  ultimately have "doDefers e barrier = doDefers ?e1 barrier"
    by (rule doDefers_HandlerEntry)
  also have "\<dots> = doDefers (?e1\<lparr>deferred := ds\<rparr>) barrier"
    using snoc.prems by (intro snoc.IH) simp_all
  finally show ?case by simp
qed

text \<open>Handlers are applied in the same way whatever the default handlers are.\<close>

lemma handle_defaultHandlers:
  "handle (e\<lparr>defaultHandlers := d\<rparr>) er h =
     (case handle e er h of (r, e1) \<Rightarrow> (r, e1\<lparr>defaultHandlers := d\<rparr>))"
  by (simp add: handle_def state_of_def split: prod.splits outcome.splits option.splits)

lemma rangeHandlers_defaultHandlers_update:
  "rangeHandlers (e\<lparr>defaultHandlers := d\<rparr>) er hs =
     (case rangeHandlers e er hs of (r, e1) \<Rightarrow> (r, e1\<lparr>defaultHandlers := d\<rparr>))"
proof (induction hs arbitrary: e er)
  case Nil
  show ?case by simp
next
  case (Cons h hs)
  show ?case
    by (simp add: handle_defaultHandlers Cons.IH split: prod.splits outcome.splits)
qed

lemma setErr_defaultHandlers:
  "setErr (e\<lparr>defaultHandlers := d\<rparr>) er = (setErr e er)\<lparr>defaultHandlers := d\<rparr>"
  by (simp add: setErr_def)

lemma bail_empty: "deferred e = [] \<Longrightarrow> bail e = (Panic (PError errOurPanic), e)"
  by (simp add: bail_def doDefers_below)

section \<open>Examples\<close>

text \<open>
  The handlers \<^verbatim>\<open>inc\<close> and \<^verbatim>\<open>dec\<close> of the tests, three deferred functions (one
  returns \<^verbatim>\<open>nil\<close>, one returns an error made of its argument, one panics with the
  string \<^verbatim>\<open>boom\<close>), and catchers over a world without content.
\<close>

definition inc :: "'w Handler" where
  "inc s er w = (case er of UserError i \<Rightarrow> (Return (Some (UserError (i + 1))), w)
                 | _ \<Rightarrow> (Panic (PValue ''interface conversion''), w))"

definition dec :: "'w Handler" where
  "dec s er w = (case er of UserError i \<Rightarrow> (Return (Some (UserError (i - 1))), w)
                 | _ \<Rightarrow> (Panic (PValue ''interface conversion''), w))"

definition closes :: "'w DeferFunc" where
  "closes s x w = (Return None, w)"

definition fails :: "'w DeferFunc" where
  "fails s x w = (Return (Some (UserError (int x))), w)"

definition booms :: "'w DeferFunc" where
  "booms s x w = (Panic (PValue ''boom''), w)"

definition catcher :: "unit Handler list \<Rightarrow> unit deferData list \<Rightarrow> error option \<Rightarrow> unit Catcher" where
  "catcher h ds v = (Catch v h ())\<lparr>deferred := ds\<rparr>"

lemmas example_defs =
  catcher_def Catch_def closes_def fails_def booms_def inc_def dec_def Discard_def
  Fatal_def state_of_def handle_def setErr_def processDeferError_def processError_def bail_def
  Must_def deferHandle_def panicError_def

lemmas example_simps =
  doDefers.simps Handle.simps finishDefer.simps Let_def

section \<open>The claims\<close>

text \<open>
  C1. First error wins. Once \<^verbatim>\<open>*e.err\<close> holds an error, an error that \<^verbatim>\<open>Must\<close> detects
  later, or that a deferred function returns later, does not change it, whatever the
  handlers do; and it is unchanged by a \<^verbatim>\<open>Handle\<close> that returns, that is, one that caught
  no panic other than the catcher's own. Only the \<^verbatim>\<open>default\<close> case of \<^verbatim>\<open>Handle\<close>
  replaces it. In particular \<^verbatim>\<open>Must(err1)\<close> followed by \<^verbatim>\<open>Must(err2)\<close> on a catcher
  without default handlers leaves \<^verbatim>\<open>err1\<close>.
\<close>

theorem first_error_wins:
  "(err e = Some e1 \<longrightarrow>
      err (snd (processError e e2 hs)) = Some e1 \<and>
      err (snd (processDeferError e e2)) = Some e1 \<and>
      err (snd (doDefers e barrier)) = Some e1 \<and>
      (\<forall>u e'. Handle r e = (Return u, e') \<longrightarrow> err e' = Some e1)) \<and>
   (err e = None \<and> defaultHandlers e = [] \<longrightarrow>
      err (snd (Must (snd (Must e (Some e1) [])) (Some e2) hs)) = Some e1)"
proof (intro conjI impI allI)
  assume "err e = Some e1"
  then show "err (snd (processError e e2 hs)) = Some e1"
    using steps_err [OF processError_step, of e e2 hs] by (metis option.distinct(1) prod.collapse)
next
  assume "err e = Some e1"
  then show "err (snd (processDeferError e e2)) = Some e1"
    using steps_err [OF processDeferError_step, of e e2] by (metis option.distinct(1) prod.collapse)
next
  assume "err e = Some e1"
  then show "err (snd (doDefers e barrier)) = Some e1"
    using steps_err [OF doDefers_step, of e barrier] by (metis option.distinct(1) prod.collapse)
next
  fix u e'
  assume a: "err e = Some e1" and h: "Handle r e = (Return u, e')"
  from h have "step\<^sup>*\<^sup>* e e'" using Handle_finished [of e r] by (simp add: finished_def)
  with a show "err e' = Some e1" using steps_err by fastforce
next
  assume a: "err e = None \<and> defaultHandlers e = []"
  obtain r1 e3 where b: "bail (setErr e e1) = (r1, e3)" by (cases "bail (setErr e e1)")
  from a have "err (setErr e e1) = Some e1" by (simp add: setErr_def)
  with b have e3: "err e3 = Some e1" using steps_err [OF bail_step] by fastforce
  from a b have m1: "Must e (Some e1) [] = (r1, e3)"
    by (simp add: Must_def processError_chain)
  obtain r2 e4 where m2: "Must e3 (Some e2) hs = (r2, e4)" by (cases "Must e3 (Some e2) hs")
  with e3 have "err e4 = Some e1" using steps_err [OF Must_step] by fastforce
  with m1 m2 show "err (snd (Must (snd (Must e (Some e1) [])) (Some e2) hs)) = Some e1" by simp
qed

theorem first_error_wins_witness:
  "err (catcher [] [] (Some (UserError 1))) = Some (UserError 1) \<and>
   err (snd (processError (catcher [] [] (Some (UserError 1))) (UserError 2) [inc])) = Some (UserError 1) \<and>
   err (catcher [] [] None) = None \<and> defaultHandlers (catcher [] [] None) = [] \<and>
   err (snd (Must (snd (Must (catcher [] [] None) (Some (UserError 1)) [])) (Some (UserError 2)) []))
     = Some (UserError 1)"
  using first_error_wins [of "catcher [] [] (Some (UserError 1))" "UserError 1" "UserError 2" "[inc]"]
    first_error_wins [of "catcher [] [] None" "UserError 1" "UserError 2" "[]"]
  by (simp add: catcher_def Catch_def)


text \<open>
  C2. Deferred functions run last in, first out. The functions that have been called
  are, at every moment, the topmost entries of the stack in order from the top; when the
  loop of \<^verbatim>\<open>doDefers\<close> runs to its end, and when \<^verbatim>\<open>Handle\<close> is over (alone, or
  after a \<^verbatim>\<open>Must\<close> that bailed out), every function of the stack has been called, in the
  reverse of the order of the stack. No assumption is made on the functions: they may return
  errors or panic. Only \<^verbatim>\<open>os.Exit\<close> stops the calls, the process being over.
\<close>

theorem cleanups_lifo:
  "(doDefers e 0 = (Return u, e') \<longrightarrow>
      called (trace e') = called (trace e) @ rev (pending (deferred e))) \<and>
   (Handle r e = (res, e') \<and> res \<noteq> Exit \<longrightarrow>
      called (trace e') = called (trace e) @ rev (pending (deferred e))) \<and>
   (deferHandle (Must e v hs) = (res, e') \<and> res \<noteq> Exit \<longrightarrow>
      called (trace e') = called (trace e) @ rev (pending (deferred e))) \<and>
   (Handle r e = (res, e') \<or> deferHandle (Must e v hs) = (res, e') \<longrightarrow>
      (\<exists>k. called (trace e') = called (trace e) @ take k (rev (pending (deferred e)))))"
proof (intro conjI impI)
  assume a: "doDefers e 0 = (Return u, e')"
  then have "deferred e' = []" using doDefers_Return [of e 0 u e'] by simp
  with a show "called (trace e') = called (trace e) @ rev (pending (deferred e))"
    using moves_called_all [OF steps_moves [OF doDefers_step]] by blast
next
  assume a: "Handle r e = (res, e') \<and> res \<noteq> Exit"
  then have "move\<^sup>*\<^sup>* e e'" and "deferred e' = []"
    using Handle_finished [of e r] by (simp_all add: finished_def)
  then show "called (trace e') = called (trace e) @ rev (pending (deferred e))"
    by (rule moves_called_all)
next
  assume a: "deferHandle (Must e v hs) = (res, e') \<and> res \<noteq> Exit"
  then have "move\<^sup>*\<^sup>* e e'" and "deferred e' = []"
    using deferHandle_Must_finished [of e v hs] by (simp_all add: finished_def)
  then show "called (trace e') = called (trace e) @ rev (pending (deferred e))"
    by (rule moves_called_all)
next
  assume "Handle r e = (res, e') \<or> deferHandle (Must e v hs) = (res, e')"
  then have "move\<^sup>*\<^sup>* e e'"
    using Handle_finished [of e r] deferHandle_Must_finished [of e v hs]
    by (auto simp: finished_def)
  then show "\<exists>k. called (trace e') = called (trace e) @ take k (rev (pending (deferred e)))"
    by (rule moves_called_prefix)
qed

text \<open>
  The witness registers 1, 2, 3 in this order; 2 returns an error and 3 panics. The calls
  are 3, 2, 1, in \<^verbatim>\<open>Handle\<close> alone and after a \<^verbatim>\<open>Must\<close> that bails out.
\<close>

theorem cleanups_lifo_witness:
  "fst (doDefers (catcher [] [FuncEntry closes 1, FuncEntry fails 2] None) 0) = Return () \<and>
   called (trace (snd (doDefers (catcher [] [FuncEntry closes 1, FuncEntry fails 2] None) 0))) = [2, 1] \<and>
   fst (Handle None (catcher [] [FuncEntry closes 1, FuncEntry fails 2, FuncEntry booms 3] None)) \<noteq> Exit \<and>
   called (trace (snd (Handle None
       (catcher [] [FuncEntry closes 1, FuncEntry fails 2, FuncEntry booms 3] None)))) = [3, 2, 1] \<and>
   fst (deferHandle (Must (catcher [] [FuncEntry closes 1, FuncEntry fails 2, FuncEntry booms 3] None)
       (Some (UserError 9)) [])) \<noteq> Exit \<and>
   called (trace (snd (deferHandle (Must
       (catcher [] [FuncEntry closes 1, FuncEntry fails 2, FuncEntry booms 3] None)
       (Some (UserError 9)) [])))) = [3, 2, 1]"
proof -
  let ?e2 = "catcher [] [FuncEntry closes 1, FuncEntry fails 2] None"
  let ?e3 = "catcher [] [FuncEntry closes 1, FuncEntry fails 2, FuncEntry booms 3] None"
  let ?m = "Must ?e3 (Some (UserError 9)) []"
  have p2: "called (trace ?e2) @ rev (pending (deferred ?e2)) = [2, 1]"
    and p3: "called (trace ?e3) @ rev (pending (deferred ?e3)) = [3, 2, 1]"
    by (simp_all add: catcher_def Catch_def)
  have d: "fst (doDefers ?e2 0) = Return ()"
    by (simp add: example_defs example_simps)
  have h: "fst (Handle None ?e3) = Panic (PValue ''boom'')"
    by (simp add: example_defs example_simps)
  have m: "fst (deferHandle ?m) = Panic (PValue ''boom'')"
    by (simp add: example_defs example_simps)
  from d have "called (trace (snd (doDefers ?e2 0))) = [2, 1]"
    using cleanups_lifo [of ?e2 "()" "snd (doDefers ?e2 0)"] p2 by (metis prod.collapse)
  moreover from h have "called (trace (snd (Handle None ?e3))) = [3, 2, 1]"
    using cleanups_lifo [of ?e3 _ "snd (Handle None ?e3)" None "fst (Handle None ?e3)"] p3
    by (metis outcome.distinct(5) prod.collapse)
  moreover from m have "called (trace (snd (deferHandle ?m))) = [3, 2, 1]"
    using cleanups_lifo [of ?e3 _ "snd (deferHandle ?m)" _ "fst (deferHandle ?m)" "Some (UserError 9)" "[]"] p3
    by (metis outcome.distinct(5) prod.collapse)
  ultimately show ?thesis using d h m by simp
qed


text \<open>
  C10. No deferred function is called twice. A function entry is taken off the stack
  before its function is called, so when the function panics the entry is gone; and
  whatever \<^verbatim>\<open>doDefers\<close>, \<^verbatim>\<open>Handle\<close> (with its calls of itself through
  \<^verbatim>\<open>finishDefer\<close>) or \<^verbatim>\<open>Must\<close> followed by \<^verbatim>\<open>Handle\<close> do, the calls made together with
  the entries still on the stack are the calls made before together with the entries that
  were on the stack: a value is called at most as often as it was registered.
\<close>

theorem cleanups_at_most_once:
  "(deferred e = ds @ [FuncEntry f x] \<and> barrier \<le> length ds \<and>
      f (state_of (e\<lparr>deferred := ds\<rparr>)) x (world e) = (Panic p, w) \<longrightarrow>
      doDefers e barrier = (Panic p, e\<lparr>deferred := ds, trace := trace e @ [Called x], world := w\<rparr>)) \<and>
   (doDefers e barrier = (res, e') \<or> Handle r e = (res, e') \<or>
      deferHandle (Must e v hs) = (res, e') \<longrightarrow>
      called (trace e') @ rev (pending (deferred e')) = called (trace e) @ rev (pending (deferred e)) \<and>
      count_list (called (trace e')) y \<le> count_list (called (trace e)) y + count_list (pending (deferred e)) y)"
proof (rule conjI)
  show "deferred e = ds @ [FuncEntry f x] \<and> barrier \<le> length ds \<and>
      f (state_of (e\<lparr>deferred := ds\<rparr>)) x (world e) = (Panic p, w) \<longrightarrow>
      doDefers e barrier = (Panic p, e\<lparr>deferred := ds, trace := trace e @ [Called x], world := w\<rparr>)"
    by (simp add: doDefers_FuncEntry)
next
  show "doDefers e barrier = (res, e') \<or> Handle r e = (res, e') \<or>
      deferHandle (Must e v hs) = (res, e') \<longrightarrow>
      called (trace e') @ rev (pending (deferred e')) = called (trace e) @ rev (pending (deferred e)) \<and>
      count_list (called (trace e')) y \<le> count_list (called (trace e)) y + count_list (pending (deferred e)) y"
  proof (rule impI)
    assume "doDefers e barrier = (res, e') \<or> Handle r e = (res, e') \<or>
        deferHandle (Must e v hs) = (res, e')"
    then have "move\<^sup>*\<^sup>* e e'"
      using steps_moves [OF doDefers_step, of e barrier res e'] Handle_finished [of e r]
        deferHandle_Must_finished [of e v hs]
      by (auto simp: finished_def)
    then have eq: "called (trace e') @ rev (pending (deferred e')) =
        called (trace e) @ rev (pending (deferred e))"
      by (rule moves_order)
    have "count_list (called (trace e')) y \<le>
        count_list (called (trace e') @ rev (pending (deferred e'))) y"
      by simp
    also have "\<dots> = count_list (called (trace e)) y + count_list (pending (deferred e)) y"
      by (simp add: eq)
    finally show "called (trace e') @ rev (pending (deferred e')) =
        called (trace e) @ rev (pending (deferred e)) \<and>
        count_list (called (trace e')) y \<le>
        count_list (called (trace e)) y + count_list (pending (deferred e)) y"
      using eq by simp
  qed
qed

text \<open>
  The witness: 3 panics while \<^verbatim>\<open>Must\<close> bails out, and \<^verbatim>\<open>Handle\<close> goes on with 2 and
  1 only.
\<close>

theorem cleanups_at_most_once_witness:
  "doDefers (catcher [] [FuncEntry closes 1, FuncEntry fails 2, FuncEntry booms 3] None) 0
     = (Panic (PValue ''boom''),
        (catcher [] [FuncEntry closes 1, FuncEntry fails 2] None)\<lparr>trace := [Called 3]\<rparr>) \<and>
   count_list (called (trace (snd (deferHandle (Must
       (catcher [] [FuncEntry closes 1, FuncEntry fails 2, FuncEntry booms 3] None)
       (Some (UserError 9)) []))))) 3 \<le> 1"
proof -
  let ?e3 = "catcher [] [FuncEntry closes 1, FuncEntry fails 2, FuncEntry booms 3] None"
  let ?m = "Must ?e3 (Some (UserError 9)) []"
  have "doDefers ?e3 0 = (Panic (PValue ''boom''),
      ?e3\<lparr>deferred := [FuncEntry closes 1, FuncEntry fails 2], trace := trace ?e3 @ [Called 3],
          world := ()\<rparr>)"
    using cleanups_at_most_once [of ?e3 "[FuncEntry closes 1, FuncEntry fails 2]" booms 3 0
        "PValue ''boom''" "()"]
    by (simp add: catcher_def Catch_def booms_def)
  moreover have "count_list (called (trace (snd (deferHandle ?m)))) 3 \<le>
      count_list (called (trace ?e3)) 3 + count_list (pending (deferred ?e3)) 3"
    using cleanups_at_most_once [of ?e3 _ _ _ _ _ _ "fst (deferHandle ?m)" "snd (deferHandle ?m)"
        _ "Some (UserError 9)" "[]" 3]
    by simp
  ultimately show ?thesis by (simp add: catcher_def Catch_def)
qed

text \<open>
  C9. A caught panic leaves an error. When \<^verbatim>\<open>Handle\<close> catches a panic that is not the
  catcher's own, \<^verbatim>\<open>inPanic\<close> is set and \<^verbatim>\<open>*e.err\<close> is not \<^verbatim>\<open>nil\<close> when \<^verbatim>\<open>Handle\<close> is
  over, whatever the deferred functions and their handlers do in between. More generally
  "\<^verbatim>\<open>inPanic\<close> implies \<^verbatim>\<open>*e.err\<close> is not \<^verbatim>\<open>nil\<close>" is kept by \<^verbatim>\<open>Handle\<close>, also after a
  \<^verbatim>\<open>Must\<close>.
\<close>

theorem fault_error_not_nil:
  "(p \<noteq> PError errOurPanic \<and> Handle (Some p) e = (res, e') \<longrightarrow> inPanic e' \<and> err e' \<noteq> None) \<and>
   ((inPanic e \<longrightarrow> err e \<noteq> None) \<and>
      (Handle r e = (res, e') \<or> deferHandle (Must e v hs) = (res, e')) \<longrightarrow>
      (inPanic e' \<longrightarrow> err e' \<noteq> None))"
proof (rule conjI; rule impI)
  assume a: "p \<noteq> PError errOurPanic \<and> Handle (Some p) e = (res, e')"
  obtain r3 e3 where f: "finishDefer (caught e p) = (r3, e3)"
    by (cases "finishDefer (caught e p)")
  with a have "e' = e3" by (cases r3) (auto simp: Handle_default)
  with f have "move\<^sup>*\<^sup>* (caught e p) e'"
    using Handle_finishDefer_finished(2) [of "caught e p"] by (simp add: finished_def)
  moreover have "inPanic (caught e p)" and "err (caught e p) \<noteq> None"
    by (simp_all add: caught_def)
  ultimately show "inPanic e' \<and> err e' \<noteq> None"
    using moves_inPanic moves_err_kept by blast
next
  assume a: "(inPanic e \<longrightarrow> err e \<noteq> None) \<and>
      (Handle r e = (res, e') \<or> deferHandle (Must e v hs) = (res, e'))"
  then have "move\<^sup>*\<^sup>* e e'"
    using Handle_finished [of e r] deferHandle_Must_finished [of e v hs]
    by (auto simp: finished_def)
  with a show "inPanic e' \<longrightarrow> err e' \<noteq> None" using moves_panic_err by blast
qed

text \<open>
  The witness: a panic with the string \<^verbatim>\<open>P\<close> is caught while a deferred function is
  registered whose error the handler \<^verbatim>\<open>Discard\<close> absorbs. Then a \<^verbatim>\<open>Must\<close> whose
  deferred function panics.
\<close>

theorem fault_error_not_nil_witness:
  "PValue ''P'' \<noteq> PError errOurPanic \<and>
   inPanic (snd (Handle (Some (PValue ''P'')) (catcher [Discard] [FuncEntry fails 1] None))) \<and>
   err (snd (Handle (Some (PValue ''P'')) (catcher [Discard] [FuncEntry fails 1] None)))
     = Some (Errorf ''errd: paniced: P'') \<and>
   \<not> inPanic (catcher [] [FuncEntry booms 1] None) \<and>
   inPanic (snd (deferHandle (Must (catcher [] [FuncEntry booms 1] None) (Some (UserError 9)) []))) \<and>
   err (snd (deferHandle (Must (catcher [] [FuncEntry booms 1] None) (Some (UserError 9)) [])))
     \<noteq> None"
proof -
  let ?e = "catcher [Discard] [FuncEntry fails 1] None"
  let ?e' = "catcher [] [FuncEntry booms 1] None"
  let ?m = "deferHandle (Must ?e' (Some (UserError 9)) [])"
  have "inPanic (snd (Handle (Some (PValue ''P'')) ?e)) \<and>
      err (snd (Handle (Some (PValue ''P'')) ?e)) \<noteq> None"
    using fault_error_not_nil [of "PValue ''P''" ?e "fst (Handle (Some (PValue ''P'')) ?e)"
        "snd (Handle (Some (PValue ''P'')) ?e)"]
    by simp
  moreover have "err (snd (Handle (Some (PValue ''P'')) ?e)) = Some (Errorf ''errd: paniced: P'')"
    by (simp add: example_defs example_simps)
  moreover have n: "\<not> inPanic ?e'"
    by (simp add: catcher_def Catch_def)
  moreover have i: "inPanic (snd ?m)"
    by (simp add: example_defs example_simps)
  moreover from n i have "err (snd ?m) \<noteq> None"
    using fault_error_not_nil [of _ ?e' "fst ?m" "snd ?m" _ "Some (UserError 9)" "[]"] by simp
  ultimately show ?thesis by simp
qed

text \<open>
  C7. The catcher's own panic stays inside. \<^verbatim>\<open>bail\<close> panics with \<^verbatim>\<open>errOurPanic\<close> once
  the deferred functions have run. \<^verbatim>\<open>Handle\<close> treats this payload exactly as it treats
  no panic at all: it runs what is left on the stack, it does not touch \<^verbatim>\<open>*e.err\<close> (with
  an empty stack the catcher is unchanged) and it returns, so that the function that
  deferred \<^verbatim>\<open>Handle\<close> returns with the error already stored. Whatever happens,
  \<^verbatim>\<open>Handle\<close> never panics with \<^verbatim>\<open>errOurPanic\<close>.
\<close>

theorem ourPanic_private:
  "(doDefers e 0 = (Return u, e1) \<longrightarrow> bail e = (Panic (PError errOurPanic), e1)) \<and>
   Handle (Some (PError errOurPanic)) e = Handle None e \<and>
   (deferred e = [] \<longrightarrow> Handle (Some (PError errOurPanic)) e = (Return (), e)) \<and>
   (processError e er hs = (Panic (PError errOurPanic), e1) \<and> deferred e1 = [] \<longrightarrow>
      deferHandle (processError e er hs) = (Return (), e1)) \<and>
   fst (Handle r e) \<noteq> Panic (PError errOurPanic) \<and>
   fst (deferHandle body) \<noteq> Panic (PError errOurPanic)"
proof -
  have "bail e = (Panic (PError errOurPanic), e1)" if "doDefers e 0 = (Return u, e1)"
    using that by (simp add: bail_def)
  moreover have "Handle (Some (PError errOurPanic)) e = Handle None e"
    by (simp add: Handle_None Handle_ourPanic)
  moreover have "Handle (Some (PError errOurPanic)) e = (Return (), e)" if "deferred e = []"
    using that by (simp add: Handle_ourPanic finishDefer_empty)
  moreover have "deferHandle (processError e er hs) = (Return (), e1)"
    if "processError e er hs = (Panic (PError errOurPanic), e1) \<and> deferred e1 = []"
    using that by (simp add: deferHandle_def Handle_ourPanic finishDefer_empty)
  moreover have "fst (Handle r e) \<noteq> Panic (PError errOurPanic)"
    using Handle_finished [of e r] by (simp add: finished_def)
  moreover have "fst (deferHandle body) \<noteq> Panic (PError errOurPanic)"
    using deferHandle_finished [of "snd body" body] by (simp add: finished_def)
  ultimately show ?thesis by blast
qed

text \<open>
  The witness: \<^verbatim>\<open>Must\<close> on an error, one deferred function registered. The function
  with the deferred \<^verbatim>\<open>Handle\<close> returns, the error is in \<^verbatim>\<open>*e.err\<close>.
\<close>

theorem ourPanic_private_witness:
  "doDefers (catcher [] [FuncEntry closes 1] None) 0
     = (Return (), (catcher [] [] None)\<lparr>trace := [Called 1]\<rparr>) \<and>
   bail (catcher [] [FuncEntry closes 1] None)
     = (Panic (PError errOurPanic), (catcher [] [] None)\<lparr>trace := [Called 1]\<rparr>) \<and>
   processError (catcher [] [FuncEntry closes 1] None) (UserError 1) []
     = (Panic (PError errOurPanic),
        (catcher [] [] (Some (UserError 1)))\<lparr>trace := [Stored (UserError 1), Called 1]\<rparr>) \<and>
   deferHandle (processError (catcher [] [FuncEntry closes 1] None) (UserError 1) [])
     = (Return (), (catcher [] [] (Some (UserError 1)))\<lparr>trace := [Stored (UserError 1), Called 1]\<rparr>)"
proof -
  let ?e = "catcher [] [FuncEntry closes 1] None"
  let ?e1 = "(catcher [] [] None)\<lparr>trace := [Called 1]\<rparr>"
  let ?e2 = "(catcher [] [] (Some (UserError 1)))\<lparr>trace := [Stored (UserError 1), Called 1]\<rparr>"
  have d: "doDefers ?e 0 = (Return (), ?e1)"
    by (simp add: example_defs example_simps)
  have p: "processError ?e (UserError 1) [] = (Panic (PError errOurPanic), ?e2)"
    by (simp add: example_defs example_simps)
  have e2: "deferred ?e2 = []"
    by (simp add: catcher_def Catch_def)
  from d have "bail ?e = (Panic (PError errOurPanic), ?e1)"
    using ourPanic_private [of ?e "()" ?e1] by blast
  moreover from p e2 have "deferHandle (processError ?e (UserError 1) []) = (Return (), ?e2)"
    using ourPanic_private [of ?e _ ?e2 "UserError 1" "[]"] by blast
  ultimately show ?thesis using d p by simp
qed


text \<open>
  C5. An absorbed error leaves no trace. When the handlers that apply to an error given
  to \<^verbatim>\<open>Must\<close> (those of the call, or the default handlers if the call has none) end with
  a handler returning \<^verbatim>\<open>nil\<close>, \<^verbatim>\<open>Must\<close> returns: no panic, \<^verbatim>\<open>*e.err\<close> as before,
  the stack as before, no deferred function called. Only the effects of the handlers
  themselves remain. With \<^verbatim>\<open>Discard\<close> as first handler of the call, or as first default
  handler of a call without handlers, nothing changes at all.
\<close>

theorem absorbed_detection:
  "(rangeHandlers e er (if hs = [] then defaultHandlers e else hs) = (Return (True, er'), e1) \<longrightarrow>
      Must e (Some er) hs = (Return (), e1) \<and> err e1 = err e \<and> deferred e1 = deferred e \<and>
      trace e1 = trace e \<and> inPanic e1 = inPanic e) \<and>
   Must e (Some er) (Discard # hs) = (Return (), e) \<and>
   (defaultHandlers e = Discard # ds \<longrightarrow> Must e (Some er) [] = (Return (), e))"
proof -
  have d: "rangeHandlers e er (Discard # hs') = (Return (True, er), e)" for hs'
    by (simp add: handle_def Discard_def)
  have "Must e (Some er) hs = (Return (), e1) \<and> err e1 = err e \<and> deferred e1 = deferred e \<and>
      trace e1 = trace e \<and> inPanic e1 = inPanic e"
    if a: "rangeHandlers e er (if hs = [] then defaultHandlers e else hs) = (Return (True, er'), e1)"
  proof -
    from a have "onlyWorld e e1" by (rule rangeHandlers_world)
    moreover from a have "Must e (Some er) hs = (Return (), e1)"
      by (simp add: Must_def processError_chain)
    ultimately show ?thesis by (simp add: onlyWorld_def)
  qed
  moreover have "Must e (Some er) (Discard # hs) = (Return (), e)"
    using d [of hs] by (simp add: Must_def processError_chain)
  moreover have "Must e (Some er) [] = (Return (), e)" if "defaultHandlers e = Discard # ds"
    using that d [of ds] by (simp add: Must_def processError_chain)
  ultimately show ?thesis by blast
qed

text \<open>
  The witness: the handler \<^verbatim>\<open>inc\<close> and then \<^verbatim>\<open>Discard\<close>, one deferred function
  registered, which is not called.
\<close>

theorem absorbed_detection_witness:
  "rangeHandlers (catcher [] [FuncEntry closes 1] None) (UserError 1) [inc, Discard]
     = (Return (True, UserError 2), catcher [] [FuncEntry closes 1] None) \<and>
   Must (catcher [] [FuncEntry closes 1] None) (Some (UserError 1)) [inc, Discard]
     = (Return (), catcher [] [FuncEntry closes 1] None) \<and>
   defaultHandlers (catcher [Discard] [FuncEntry closes 1] None) = Discard # [] \<and>
   Must (catcher [Discard] [FuncEntry closes 1] None) (Some (UserError 1)) []
     = (Return (), catcher [Discard] [FuncEntry closes 1] None)"
proof -
  let ?e = "catcher [] [FuncEntry closes 1] None"
  let ?e' = "catcher [Discard] [FuncEntry closes 1] None"
  have r: "rangeHandlers ?e (UserError 1) [inc, Discard] = (Return (True, UserError 2), ?e)"
    by (simp add: example_defs)
  then have "Must ?e (Some (UserError 1)) [inc, Discard] = (Return (), ?e)"
    using absorbed_detection [of ?e "UserError 1" "[inc, Discard]" "UserError 2" ?e] by simp
  moreover have d: "defaultHandlers ?e' = Discard # []"
    by (simp add: catcher_def Catch_def)
  then have "Must ?e' (Some (UserError 1)) [] = (Return (), ?e')"
    using absorbed_detection [of ?e' "UserError 1" _ _ _ "[]"] by blast
  ultimately show ?thesis using r d by simp
qed

text \<open>
  C6. The handlers of a call replace the default handlers. \<^verbatim>\<open>processError\<close> with at
  least one handler applies these handlers and no others: it is what the second clause
  says, in which the default handlers do not occur, and when nothing is deferred its
  result is the same whatever the default handlers are. Without handlers it applies the
  default handlers, in their order. In the same way the error of a deferred function goes
  through the handlers registered with it (\<open>ownHandlers\<close>) if there are any, with a result
  that does not depend on the default handlers, and through the default handlers if there
  are none.
\<close>

theorem call_handlers_replace_defaults:
  "(hs \<noteq> [] \<longrightarrow>
      processError e er hs =
        (case rangeHandlers e er hs of
           (Return (dn, er1), e1) \<Rightarrow> if dn then (Return (), e1) else bail (setErr e1 er1)
         | (Panic p, e1) \<Rightarrow> (Panic p, e1)
         | (Exit, e1) \<Rightarrow> (Exit, e1)) \<and>
      (deferred e = [] \<longrightarrow>
         processError (e\<lparr>defaultHandlers := d\<rparr>) er hs =
           (case processError e er hs of (r, e1) \<Rightarrow> (r, e1\<lparr>defaultHandlers := d\<rparr>)))) \<and>
   processError e er [] =
     (case rangeHandlers e er (defaultHandlers e) of
        (Return (dn, er1), e1) \<Rightarrow> if dn then (Return (), e1) else bail (setErr e1 er1)
      | (Panic p, e1) \<Rightarrow> (Panic p, e1)
      | (Exit, e1) \<Rightarrow> (Exit, e1)) \<and>
   (ownHandlers (deferred e) \<noteq> [] \<longrightarrow>
      processDeferError e er =
        (case rangeHandlers e er (ownHandlers (deferred e)) of
           (Return (dn, er1), e1) \<Rightarrow> (Return (), if dn then e1 else setErr e1 er1)
         | (Panic p, e1) \<Rightarrow> (Panic p, e1)
         | (Exit, e1) \<Rightarrow> (Exit, e1)) \<and>
      processDeferError (e\<lparr>defaultHandlers := d\<rparr>) er =
        (case processDeferError e er of (r, e1) \<Rightarrow> (r, e1\<lparr>defaultHandlers := d\<rparr>))) \<and>
   (ownHandlers (deferred e) = [] \<longrightarrow>
      processDeferError e er =
        (case rangeHandlers e er (defaultHandlers e) of
           (Return (dn, er1), e1) \<Rightarrow> (Return (), if dn then e1 else setErr e1 er1)
         | (Panic p, e1) \<Rightarrow> (Panic p, e1)
         | (Exit, e1) \<Rightarrow> (Exit, e1)))"
proof -
  have p1: "processError (e\<lparr>defaultHandlers := d\<rparr>) er hs =
      (case processError e er hs of (r, e1) \<Rightarrow> (r, e1\<lparr>defaultHandlers := d\<rparr>))"
    if hs: "hs \<noteq> []" and de: "deferred e = []"
  proof -
    obtain r1 e1 where r: "rangeHandlers e er hs = (r1, e1)" by (cases "rangeHandlers e er hs")
    then have "deferred e1 = deferred e"
      using rangeHandlers_world [of e er hs r1 e1] by (simp add: onlyWorld_def)
    with de have b: "bail (setErr e1 x) = (Panic (PError errOurPanic), setErr e1 x)"
      and b': "bail ((setErr e1 x)\<lparr>defaultHandlers := d\<rparr>) =
        (Panic (PError errOurPanic), (setErr e1 x)\<lparr>defaultHandlers := d\<rparr>)" for x
      by (simp_all add: bail_empty deferred_setErr)
    from hs r show ?thesis
      by (cases r1)
        (auto simp: processError_chain rangeHandlers_defaultHandlers_update b b'
          setErr_defaultHandlers)
  qed
  have p2: "processDeferError (e\<lparr>defaultHandlers := d\<rparr>) er =
      (case processDeferError e er of (r, e1) \<Rightarrow> (r, e1\<lparr>defaultHandlers := d\<rparr>))"
    if "ownHandlers (deferred e) \<noteq> []"
    using that
    by (auto simp: processDeferError_chain rangeHandlers_defaultHandlers_update
        setErr_defaultHandlers split: prod.splits outcome.splits)
  show ?thesis
    using p1 p2 by (simp add: processError_chain processDeferError_chain)
qed

text \<open>
  The witness follows the tests "mask default" and "default option": with the default
  handler \<^verbatim>\<open>inc\<close>, the call with \<^verbatim>\<open>dec\<close> stores 1 for the error 2, the call without
  handlers stores 1 for the error 0. For a deferred function that returns the error 1,
  registered with \<^verbatim>\<open>dec\<close>, 0 is stored; registered without handlers, 2.
\<close>

theorem call_handlers_replace_defaults_witness:
  "[dec] \<noteq> ([] :: unit Handler list) \<and>
   err (snd (processError (catcher [inc] [] None) (UserError 2) [dec])) = Some (UserError 1) \<and>
   deferred (catcher [inc] [] None) = [] \<and>
   processError ((catcher [inc] [] None)\<lparr>defaultHandlers := [Fatal]\<rparr>) (UserError 2) [dec]
     = (case processError (catcher [inc] [] None) (UserError 2) [dec] of
          (r, e1) \<Rightarrow> (r, e1\<lparr>defaultHandlers := [Fatal]\<rparr>)) \<and>
   err (snd (processError (catcher [inc] [] None) (UserError 0) [])) = Some (UserError 1) \<and>
   ownHandlers (deferred (catcher [inc] [HandlerEntry dec] None)) \<noteq> [] \<and>
   err (snd (processDeferError (catcher [inc] [HandlerEntry dec] None) (UserError 1)))
     = Some (UserError 0) \<and>
   ownHandlers (deferred (catcher [inc] [] None)) = [] \<and>
   err (snd (processDeferError (catcher [inc] [] None) (UserError 1))) = Some (UserError 2)"
proof -
  let ?e = "catcher [inc] [] None"
  let ?e' = "catcher [inc] [HandlerEntry dec] None"
  have o: "ownHandlers (deferred ?e') = [dec]" and o': "ownHandlers (deferred ?e) = []"
    by (simp_all add: catcher_def Catch_def ownHandlers_def)
  have "err (snd (processError ?e (UserError 2) [dec])) = Some (UserError 1)"
    using call_handlers_replace_defaults [of "[dec]" ?e "UserError 2"]
    by (simp add: example_defs doDefers_below)
  moreover have "processError (?e\<lparr>defaultHandlers := [Fatal]\<rparr>) (UserError 2) [dec] =
      (case processError ?e (UserError 2) [dec] of (r, e1) \<Rightarrow> (r, e1\<lparr>defaultHandlers := [Fatal]\<rparr>))"
    using call_handlers_replace_defaults [of "[dec]" ?e "UserError 2" "[Fatal]"]
    by (simp add: catcher_def Catch_def)
  moreover have "deferred ?e = []"
    by (simp add: catcher_def Catch_def)
  moreover have "err (snd (processError ?e (UserError 0) [])) = Some (UserError 1)"
    using call_handlers_replace_defaults [of "[]" ?e "UserError 0"]
    by (simp add: example_defs doDefers_below)
  moreover have "err (snd (processDeferError ?e' (UserError 1))) = Some (UserError 0)"
    using call_handlers_replace_defaults [of _ ?e' "UserError 1"] o
    by (simp add: example_defs)
  moreover have "err (snd (processDeferError ?e (UserError 1))) = Some (UserError 2)"
    using call_handlers_replace_defaults [of _ ?e "UserError 1"] o'
    by (simp add: example_defs)
  ultimately show ?thesis using o o' by simp
qed


text \<open>
  C8, as the claim states it, fails: a handler entry does not apply to the function
  entry below it. Here the function on 1 returns an error, the entry above it is the
  handler \<^verbatim>\<open>Discard\<close>, and above that lies a function that returns \<^verbatim>\<open>nil\<close>. The error
  of 1 is not discarded: it is stored. (When \<^verbatim>\<open>Discard\<close> lies below the failing entry,
  the error is discarded.)
\<close>

theorem handler_entry_above_counterexample:
  "err (snd (doDefers
      (catcher [] [FuncEntry fails 1, HandlerEntry Discard, FuncEntry closes 2] None) 0))
     = Some (UserError 1) \<and>
   err (snd (doDefers (catcher [] [HandlerEntry Discard, FuncEntry fails 1] None) 0)) = None"
  by (simp add: example_defs example_simps)

text \<open>
  C8, amended. The handler entries apply to the function entry directly above them.
  When the function entry on top of the stack returns an error and handler entries
  \<open>hs\<close> lie directly below it (on a function entry or on the bottom of the stack), the
  error goes through these handlers, the one next to the function entry first, and through
  no others; the handler entries are then taken off and the loop goes on with the stack
  below them. When no handler entry lies directly below the failing function entry, the
  error goes through the default handlers, whatever handler entries there are elsewhere.
\<close>

theorem handler_entries_apply_to_entry_above:
  "(deferred e = ds @ map HandlerEntry hs @ [FuncEntry f x] \<and> hs \<noteq> [] \<and> ownHandlers ds = [] \<and>
      barrier \<le> length ds \<and>
      f (state_of (e\<lparr>deferred := ds @ map HandlerEntry hs\<rparr>)) x (world e) = (Return (Some er), w) \<longrightarrow>
      doDefers e barrier =
        (case rangeHandlers
                (e\<lparr>deferred := ds @ map HandlerEntry hs, trace := trace e @ [Called x], world := w\<rparr>)
                er (rev hs) of
           (Return (dn, er1), e1) \<Rightarrow>
             doDefers ((if dn then e1 else setErr e1 er1)\<lparr>deferred := ds\<rparr>) barrier
         | (Panic p, e1) \<Rightarrow> (Panic p, e1)
         | (Exit, e1) \<Rightarrow> (Exit, e1))) \<and>
   (deferred e = ds @ [FuncEntry f x] \<and> ownHandlers ds = [] \<and> barrier \<le> length ds \<and>
      f (state_of (e\<lparr>deferred := ds\<rparr>)) x (world e) = (Return (Some er), w) \<longrightarrow>
      doDefers e barrier =
        (case rangeHandlers (e\<lparr>deferred := ds, trace := trace e @ [Called x], world := w\<rparr>)
                er (defaultHandlers e) of
           (Return (dn, er1), e1) \<Rightarrow> doDefers (if dn then e1 else setErr e1 er1) barrier
         | (Panic p, e1) \<Rightarrow> (Panic p, e1)
         | (Exit, e1) \<Rightarrow> (Exit, e1)))"
proof (rule conjI; rule impI)
  assume a: "deferred e = ds @ map HandlerEntry hs @ [FuncEntry f x] \<and> hs \<noteq> [] \<and>
      ownHandlers ds = [] \<and> barrier \<le> length ds \<and>
      f (state_of (e\<lparr>deferred := ds @ map HandlerEntry hs\<rparr>)) x (world e) = (Return (Some er), w)"
  let ?ds = "ds @ map HandlerEntry hs"
  let ?e3 = "e\<lparr>deferred := ?ds, trace := trace e @ [Called x], world := w\<rparr>"
  from a have own: "ownHandlers (deferred ?e3) = rev hs" and ne: "rev hs \<noteq> []"
    by (simp_all add: ownHandlers_append_handlers)
  from a have unf: "doDefers e barrier =
      (case processDeferError ?e3 er of
         (Return u, e4) \<Rightarrow> doDefers e4 barrier
       | (Panic p, e4) \<Rightarrow> (Panic p, e4)
       | (Exit, e4) \<Rightarrow> (Exit, e4))"
    using doDefers_FuncEntry [of e ?ds f x barrier] by simp
  obtain r1 e1 where r: "rangeHandlers ?e3 er (rev hs) = (r1, e1)"
    by (cases "rangeHandlers ?e3 er (rev hs)")
  then have d1: "deferred e1 = ?ds"
    using rangeHandlers_world [of ?e3 er "rev hs" r1 e1] by (simp add: onlyWorld_def)
  have skip: "doDefers e4 barrier = doDefers (e4\<lparr>deferred := ds\<rparr>) barrier"
    if "deferred e4 = ?ds" for e4 :: "'a Catcher"
    using that a by (intro doDefers_handlers [of e4 ds hs barrier]) simp_all
  show "doDefers e barrier =
      (case rangeHandlers ?e3 er (rev hs) of
         (Return (dn, er1), e1) \<Rightarrow>
           doDefers ((if dn then e1 else setErr e1 er1)\<lparr>deferred := ds\<rparr>) barrier
       | (Panic p, e1) \<Rightarrow> (Panic p, e1)
       | (Exit, e1) \<Rightarrow> (Exit, e1))"
  proof (cases r1)
    case (Return b)
    obtain dn er1 where b: "b = (dn, er1)" by (cases b)
    from d1 have "deferred (if dn then e1 else setErr e1 er1) = ?ds"
      by (simp add: deferred_setErr)
    then have "doDefers (if dn then e1 else setErr e1 er1) barrier =
        doDefers ((if dn then e1 else setErr e1 er1)\<lparr>deferred := ds\<rparr>) barrier"
      by (rule skip)
    with unf r Return b own ne show ?thesis
      by (simp add: processDeferError_chain)
  next
    case (Panic p)
    with unf r own ne show ?thesis by (simp add: processDeferError_chain)
  next
    case Exit
    with unf r own ne show ?thesis by (simp add: processDeferError_chain)
  qed
next
  assume a: "deferred e = ds @ [FuncEntry f x] \<and> ownHandlers ds = [] \<and> barrier \<le> length ds \<and>
      f (state_of (e\<lparr>deferred := ds\<rparr>)) x (world e) = (Return (Some er), w)"
  let ?e3 = "e\<lparr>deferred := ds, trace := trace e @ [Called x], world := w\<rparr>"
  from a have "doDefers e barrier =
      (case processDeferError ?e3 er of
         (Return u, e4) \<Rightarrow> doDefers e4 barrier
       | (Panic p, e4) \<Rightarrow> (Panic p, e4)
       | (Exit, e4) \<Rightarrow> (Exit, e4))"
    using doDefers_FuncEntry [of e ds f x barrier] by simp
  with a show "doDefers e barrier =
      (case rangeHandlers ?e3 er (defaultHandlers e) of
         (Return (dn, er1), e1) \<Rightarrow> doDefers (if dn then e1 else setErr e1 er1) barrier
       | (Panic p, e1) \<Rightarrow> (Panic p, e1)
       | (Exit, e1) \<Rightarrow> (Exit, e1))"
    by (auto simp: processDeferError_chain split: prod.splits outcome.splits)
qed

text \<open>
  The witness: the function on 2 returns an error and was registered with \<^verbatim>\<open>Discard\<close>,
  which lies directly below it; the error is discarded, and the function on 1 is called
  next. The same function directly on the bottom of the stack, with the default handler
  \<^verbatim>\<open>inc\<close>: its error 2 is stored as 3.
\<close>

theorem handler_entries_apply_to_entry_above_witness:
  "doDefers (catcher [] ([FuncEntry closes 1] @ map HandlerEntry [Discard] @ [FuncEntry fails 2]) None) 0
     = (Return (), (catcher [] [] None)\<lparr>trace := [Called 2, Called 1]\<rparr>) \<and>
   doDefers (catcher [inc] ([] @ [FuncEntry fails 2]) None) 0
     = (Return (), (catcher [inc] [] (Some (UserError 3)))\<lparr>trace := [Called 2, Stored (UserError 3)]\<rparr>)"
proof -
  let ?e = "catcher [] ([FuncEntry closes 1] @ map HandlerEntry [Discard] @ [FuncEntry fails 2]) None"
  let ?e' = "catcher [inc] ([] @ [FuncEntry fails 2]) None"
  have "doDefers ?e 0 =
      (case rangeHandlers
              (?e\<lparr>deferred := [FuncEntry closes 1] @ map HandlerEntry [Discard],
                  trace := trace ?e @ [Called 2], world := ()\<rparr>)
              (UserError 2) (rev [Discard]) of
         (Return (dn, er1), e1) \<Rightarrow>
           doDefers ((if dn then e1 else setErr e1 er1)\<lparr>deferred := [FuncEntry closes 1]\<rparr>) 0
       | (Panic p, e1) \<Rightarrow> (Panic p, e1)
       | (Exit, e1) \<Rightarrow> (Exit, e1))"
    using handler_entries_apply_to_entry_above
      [of ?e "[FuncEntry closes 1]" "[Discard]" fails 2 0 "UserError 2" "()"]
    by (simp add: catcher_def Catch_def fails_def ownHandlers_def)
  then have 1: "doDefers ?e 0 = (Return (), (catcher [] [] None)\<lparr>trace := [Called 2, Called 1]\<rparr>)"
    by (simp add: example_defs example_simps)
  have "doDefers ?e' 0 =
      (case rangeHandlers (?e'\<lparr>deferred := [], trace := trace ?e' @ [Called 2], world := ()\<rparr>)
              (UserError 2) (defaultHandlers ?e') of
         (Return (dn, er1), e1) \<Rightarrow> doDefers (if dn then e1 else setErr e1 er1) 0
       | (Panic p, e1) \<Rightarrow> (Panic p, e1)
       | (Exit, e1) \<Rightarrow> (Exit, e1))"
    using handler_entries_apply_to_entry_above
      [of ?e' "[]" _ fails 2 0 "UserError 2" "()"]
    by (simp add: catcher_def Catch_def fails_def ownHandlers_def)
  then have 2: "doDefers ?e' 0 =
      (Return (), (catcher [inc] [] (Some (UserError 3)))\<lparr>trace := [Called 2, Stored (UserError 3)]\<rparr>)"
    by (simp add: example_defs example_simps)
  from 1 2 show ?thesis by simp
qed


text \<open>
  C4, as the claim states it, fails: the caller's error variable is assigned before
  \<^verbatim>\<open>Handle\<close> runs, and it can be assigned twice. \<^verbatim>\<open>Must\<close> on the error 9 stores it at
  once, in \<^verbatim>\<open>processError\<close>; the deferred function then panics while \<^verbatim>\<open>Must\<close> bails
  out, and \<^verbatim>\<open>Handle\<close> stores the error of that panic over it.
\<close>

theorem error_variable_counterexample:
  "stored (trace (snd (Must (catcher [] [FuncEntry booms 1] None) (Some (UserError 9)) [])))
     = [UserError 9] \<and>
   stored (trace (snd (deferHandle
       (Must (catcher [] [FuncEntry booms 1] None) (Some (UserError 9)) []))))
     = [UserError 9, Errorf ''errd: paniced: boom'']"
  by (simp add: example_defs example_simps)

text \<open>
  C4, amended. The catcher has no error of its own: \<^verbatim>\<open>e.err\<close> points to the caller's
  variable, which is assigned when an error is resolved, in \<^verbatim>\<open>Must\<close> or while the
  deferred functions run, and only if it is \<^verbatim>\<open>nil\<close> then. So \<^verbatim>\<open>Must\<close>, \<^verbatim>\<open>doDefers\<close>,
  and a \<^verbatim>\<open>Handle\<close> that returns (alone or after \<^verbatim>\<open>Must\<close>), which is one that caught no
  panic but the catcher's own, assign it at most once, and only if it was \<^verbatim>\<open>nil\<close> before;
  the value assigned is the one it holds afterwards. Each other panic that \<^verbatim>\<open>Handle\<close>
  catches is one more assignment, made when it is caught.
\<close>

theorem error_variable_assignments:
  "(Must e v hs = (res, e') \<or> doDefers e barrier = (res, e') \<or> Handle r e = (Return u, e') \<or>
      deferHandle (Must e v hs) = (Return u, e') \<longrightarrow>
      stored (trace e') = stored (trace e) @
        (case err e of
           None \<Rightarrow> (case err e' of None \<Rightarrow> [] | Some x \<Rightarrow> [x])
         | Some x \<Rightarrow> [])) \<and>
   (p \<noteq> PError errOurPanic \<and> Handle (Some p) e = (res, e') \<longrightarrow>
      (\<exists>t. stored (trace e') = stored (trace e) @ panicError p # t))"
proof (rule conjI; rule impI)
  assume "Must e v hs = (res, e') \<or> doDefers e barrier = (res, e') \<or>
      Handle r e = (Return u, e') \<or> deferHandle (Must e v hs) = (Return u, e')"
  then have "step\<^sup>*\<^sup>* e e'"
    using Must_step [of e v hs res e'] doDefers_step [of e barrier res e']
      Handle_finished [of e r] deferHandle_Must_finished [of e v hs]
    by (auto simp: finished_def)
  then have "stored (trace e') = stored (trace e) @ assigned (err e) (err e')"
    by (rule steps_stored)
  then show "stored (trace e') = stored (trace e) @
      (case err e of
         None \<Rightarrow> (case err e' of None \<Rightarrow> [] | Some x \<Rightarrow> [x])
       | Some x \<Rightarrow> [])"
    by (simp add: assigned_def)
next
  assume a: "p \<noteq> PError errOurPanic \<and> Handle (Some p) e = (res, e')"
  obtain r3 e3 where f: "finishDefer (caught e p) = (r3, e3)"
    by (cases "finishDefer (caught e p)")
  with a have "e' = e3" by (cases r3) (auto simp: Handle_default)
  with f have "move\<^sup>*\<^sup>* (caught e p) e'"
    using Handle_finishDefer_finished(2) [of "caught e p"] by (simp add: finished_def)
  then obtain t where "trace e' = trace (caught e p) @ t" using moves_trace by blast
  then have "stored (trace e') = stored (trace e) @ panicError p # stored t"
    by (simp add: caught_def stored_append)
  then show "\<exists>t. stored (trace e') = stored (trace e) @ panicError p # t" by blast
qed

text \<open>
  The witness: \<^verbatim>\<open>Must\<close> on the error 9 with a deferred function that returns the error
  1; \<^verbatim>\<open>Handle\<close> returns, and 9 is the only value assigned. Then a panic with the string
  \<^verbatim>\<open>P\<close> caught by \<^verbatim>\<open>Handle\<close>.
\<close>

theorem error_variable_assignments_witness:
  "deferHandle (Must (catcher [] [FuncEntry fails 1] None) (Some (UserError 9)) [])
     = (Return (), (catcher [] [] (Some (UserError 9)))\<lparr>trace := [Stored (UserError 9), Called 1]\<rparr>) \<and>
   stored [Stored (UserError 9), Called 1] = [UserError 9] \<and>
   PValue ''P'' \<noteq> PError errOurPanic \<and>
   (\<exists>t. stored (trace (snd (Handle (Some (PValue ''P'')) (catcher [] [FuncEntry fails 1] None))))
      = Errorf ''errd: paniced: P'' # t)"
proof -
  let ?e = "catcher [] [FuncEntry fails 1] None"
  let ?e' = "(catcher [] [] (Some (UserError 9)))\<lparr>trace := [Stored (UserError 9), Called 1]\<rparr>"
  let ?h = "Handle (Some (PValue ''P'')) ?e"
  have m: "deferHandle (Must ?e (Some (UserError 9)) []) = (Return (), ?e')"
    by (simp add: example_defs example_simps)
  then have "stored (trace ?e') = stored (trace ?e) @
      (case err ?e of None \<Rightarrow> (case err ?e' of None \<Rightarrow> [] | Some x \<Rightarrow> [x]) | Some x \<Rightarrow> [])"
    using error_variable_assignments [of ?e "Some (UserError 9)" "[]" _ ?e' _ _ "()"] by blast
  then have 1: "stored [Stored (UserError 9), Called 1] = [UserError 9]"
    by (simp add: catcher_def Catch_def)
  have "\<exists>t. stored (trace (snd ?h)) = stored (trace ?e) @ panicError (PValue ''P'') # t"
    using error_variable_assignments [of ?e _ _ "fst ?h" "snd ?h" _ _ _ "PValue ''P''"] by simp
  then have 2: "\<exists>t. stored (trace (snd ?h)) = Errorf ''errd: paniced: P'' # t"
    by (simp add: catcher_def Catch_def panicError_def)
  from m 1 2 show ?thesis by simp
qed

text \<open>
  C3 at an input where the code does not do what the claim says. \<^verbatim>\<open>Handle\<close> catches a
  panic with the string \<^verbatim>\<open>P\<close>; the deferred function it then runs panics with the string
  \<^verbatim>\<open>boom\<close>. The \<^verbatim>\<open>Handle\<close> deferred by \<^verbatim>\<open>finishDefer\<close> catches that panic, stores its
  error over the error of \<^verbatim>\<open>P\<close> and panics with \<^verbatim>\<open>boom\<close>; the \<^verbatim>\<open>panic(r)\<close> of the
  first \<^verbatim>\<open>Handle\<close> is not reached, and \<^verbatim>\<open>P\<close> is not raised again.
\<close>

theorem later_panic_replaces_caught_panic:
  "Handle (Some (PValue ''P'')) (catcher [] [FuncEntry booms 1] None)
     = (Panic (PValue ''boom''),
        (catcher [] [] (Some (Errorf ''errd: paniced: boom'')))
          \<lparr>inPanic := True,
           trace := [Stored (Errorf ''errd: paniced: P''), Called 1,
                     Stored (Errorf ''errd: paniced: boom'')]\<rparr>)"
  by (simp add: example_defs example_simps)

end
